theory Spec2Isabelle
  imports Main "HOL-Library.Word"
begin

unbundle bit_operations_syntax

section \<open>Serial transport: ring buffers, interrupt handler, UART_send and UART_read\<close>

text \<open>
  The firmware (software/inverter.c) runs on an 8051. \<open>byte\<close> is \<open>unsigned char\<close> and
  \<open>word\<close> is the 16-bit \<open>unsigned int\<close> of the source.
\<close>

type_synonym byte = "8 word"
type_synonym word16 = "16 word"

text \<open>
  What the hardware does while the program waits: a byte arrives (the receiver loads SBUF
  and sets RI) or the transmitter finishes a byte (it sets TI). Either one raises the
  serial interrupt.
\<close>

datatype event = RxByte byte | TxDone

text \<open>
  The globals of the serial transport, the flags and registers of the UART that the
  program touches, and two components that are not program variables: \<open>wire\<close>, the bytes
  the interrupt handler has written to SBUF so far, and \<open>env\<close>, the hardware events of
  the future, one batch for each call of \<open>delay\<close> still to come (no events once the list
  is used up).
\<close>

record uart =
  rcv_buff :: "byte list"
  buffered_rcv :: byte
  rcv_read_pos :: byte
  rcv_write_pos :: byte
  tr_buff :: "byte list"
  buffered_tr :: byte
  tr_armed :: bool
  tr_read_pos :: byte
  tr_write_pos :: byte
  RI :: bool
  TI :: bool
  SBUF_in :: byte
  SMOD :: bool
  wire :: "byte list"
  env :: "event list list"

definition uart_init :: uart where
  "uart_init = \<lparr> rcv_buff = replicate 8 0, buffered_rcv = 0, rcv_read_pos = 0,
     rcv_write_pos = 0, tr_buff = replicate 8 0, buffered_tr = 0, tr_armed = False,
     tr_read_pos = 0, tr_write_pos = 0, RI = False, TI = False, SBUF_in = 0,
     SMOD = True, wire = [], env = [] \<rparr>"

text \<open>UART_ISR, receive branch (lines 73-80).\<close>

definition isr_receive :: "uart \<Rightarrow> uart" where
  "isr_receive s =
     (let s1 = s\<lparr>RI := False\<rparr> in
      if buffered_rcv s1 < 8
      then s1\<lparr>rcv_buff := (rcv_buff s1)[unat (rcv_write_pos s1) := SBUF_in s1],
              buffered_rcv := buffered_rcv s1 + 1,
              rcv_write_pos := (rcv_write_pos s1 + 1) AND 7\<rparr>
      else s1)"

text \<open>UART_ISR, transmit branch (lines 81-89). Writing SBUF puts the byte on the wire.\<close>

definition isr_transmit :: "uart \<Rightarrow> uart" where
  "isr_transmit s =
     (let s1 = s\<lparr>TI := False\<rparr> in
      if buffered_tr s1 > 0
      then s1\<lparr>wire := wire s1 @ [tr_buff s1 ! unat (tr_read_pos s1)],
              buffered_tr := buffered_tr s1 - 1,
              tr_read_pos := (tr_read_pos s1 + 1) AND 7\<rparr>
      else s1\<lparr>tr_armed := False\<rparr>)"

definition UART_ISR :: "uart \<Rightarrow> uart" where
  "UART_ISR s =
     (let s1 = (if RI s then isr_receive s else s)
      in if TI s1 then isr_transmit s1 else s1)"

text \<open>A hardware event sets its flag and the handler runs.\<close>

fun hw_event :: "event \<Rightarrow> uart \<Rightarrow> uart" where
  "hw_event (RxByte b) s = UART_ISR (s\<lparr>SBUF_in := b, RI := True\<rparr>)"
| "hw_event TxDone s = UART_ISR (s\<lparr>TI := True\<rparr>)"

text \<open>
  delay (lines 92-97) is a busy loop; interrupts are enabled wherever it is called, so
  the events of that time are handled during it.
\<close>

definition delay :: "nat \<Rightarrow> uart \<Rightarrow> uart" where
  "delay time_ms s =
     (case env s of [] \<Rightarrow> s | es # rest \<Rightarrow> fold hw_event es (s\<lparr>env := rest\<rparr>))"

text \<open>
  UART_send (lines 99-118). \<open>tr_put\<close> is the store of lines 101-105, \<open>tr_arm\<close> lines
  106-115: the bounded wait for TI with interrupts disabled changes no variable.
  \<open>sei\<close> enables interrupts again, so a pending flag is served at once.
\<close>

definition tr_put :: "byte \<Rightarrow> uart \<Rightarrow> uart" where
  "tr_put data s =
     (if buffered_tr s < 8
      then s\<lparr>tr_buff := (tr_buff s)[unat (tr_write_pos s) := data],
             tr_write_pos := (tr_write_pos s + 1) AND 7,
             buffered_tr := buffered_tr s + 1\<rparr>
      else s)"

definition tr_arm :: "uart \<Rightarrow> uart" where
  "tr_arm s = (if \<not> tr_armed s then s\<lparr>TI := True, tr_armed := True\<rparr> else s)"

definition sei :: "uart \<Rightarrow> uart" where
  "sei s = (if RI s \<or> TI s then UART_ISR s else s)"

definition UART_send :: "byte \<Rightarrow> uart \<Rightarrow> uart" where
  "UART_send data s = delay 1 (sei (tr_arm (tr_put data s)))"

text \<open>UART_read (lines 120-130).\<close>

definition UART_read :: "uart \<Rightarrow> byte \<times> uart" where
  "UART_read s =
     (if buffered_rcv s > 0
      then (rcv_buff s ! unat (rcv_read_pos s),
            s\<lparr>rcv_read_pos := (rcv_read_pos s + 1) AND 7,
              buffered_rcv := buffered_rcv s - 1\<rparr>)
      else (0, s))"

section \<open>LIN master: frame header and master frame\<close>

text \<open>The parity computation of LIN_send_request (lines 149-151).\<close>

definition lnot :: "byte \<Rightarrow> byte" where
  "lnot x = (if x = 0 then 1 else 0)"

definition parity_0 :: "byte \<Rightarrow> byte" where
  "parity_0 ID = (ID AND 1) XOR (drop_bit 1 ID AND 1) XOR (drop_bit 2 ID AND 1)
                   XOR (drop_bit 4 ID AND 1)"

definition parity_1 :: "byte \<Rightarrow> byte" where
  "parity_1 ID = push_bit 1 (lnot ((drop_bit 1 ID AND 1) XOR (drop_bit 3 ID AND 1)
                   XOR (drop_bit 4 ID AND 1) XOR (drop_bit 5 ID AND 1)))"

definition ID_word_of :: "byte \<Rightarrow> byte" where
  "ID_word_of ID = (ID AND 0x3F) OR push_bit 6 (parity_0 ID OR parity_1 ID)"

text \<open>The wait of lines 142-145 for the transmitter to go idle.\<close>

function wait_tr_idle :: "nat \<Rightarrow> uart \<Rightarrow> uart" where
  "wait_tr_idle i s =
     (if i < 100 then (if \<not> tr_armed s then s else wait_tr_idle (i + 1) (delay 1 s))
      else s)"
  by pat_completeness auto
termination
  by (relation "measure (\<lambda>(i, s). 100 - i)") auto

declare wait_tr_idle.simps [simp del]

definition LIN_send_request :: "byte \<Rightarrow> uart \<Rightarrow> byte \<times> uart" where
  "LIN_send_request ID s =
     (let s1 = wait_tr_idle 0 s;
          s2 = s1\<lparr>SMOD := False\<rparr>;
          s3 = UART_send 0x00 s2;
          s4 = s3\<lparr>SMOD := True\<rparr>;
          ID_word = ID_word_of ID;
          s5 = UART_send 0x55 s4;
          s6 = UART_send ID_word s5
      in (ID_word, s6))"

text \<open>
  LIN_send_data (lines 157-165). \<open>data\<close> is the array behind the pointer; the loop
  reads \<open>data[i]\<close> for \<open>i < len\<close>.
\<close>

lemma unat_byte_succ: "(i::byte) < len \<Longrightarrow> unat (i + 1) = Suc (unat i)"
proof -
  assume "i < len"
  then have "unat i < unat len" by (simp add: word_less_nat_alt)
  moreover have "unat len < 256" using unsigned_less [of len] by simp
  ultimately have "unat i + 1 < 256" by simp
  then show ?thesis by (simp add: unat_word_ariths)
qed

function send_loop :: "byte list \<Rightarrow> byte \<Rightarrow> byte \<Rightarrow> word16 \<Rightarrow> uart \<Rightarrow> word16 \<times> uart" where
  "send_loop data len i checksum s =
     (if i < len
      then send_loop data len (i + 1) (checksum + ucast (data ! unat i))
             (UART_send (data ! unat i) s)
      else (checksum, s))"
  by pat_completeness auto
termination
  by (relation "measure (\<lambda>(data, len, i, checksum, s). unat len - unat i)")
     (auto simp: unat_byte_succ word_less_nat_alt)

declare send_loop.simps [simp del]

definition fold_checksum :: "word16 \<Rightarrow> word16" where
  "fold_checksum checksum = ((checksum AND 0xFF) + drop_bit 8 checksum) XOR 0xFF"

definition LIN_send_data :: "byte list \<Rightarrow> byte \<Rightarrow> byte \<Rightarrow> uart \<Rightarrow> uart" where
  "LIN_send_data data len ID_word s =
     (let (checksum, s1) = send_loop data len 0 (ucast ID_word) s;
          checksum' = fold_checksum checksum
      in UART_send (ucast (checksum' AND 0xFF)) s1)"

section \<open>The ring buffers as queues\<close>

text \<open>
  A ring of 8 slots read from position \<open>r\<close> with \<open>n\<close> bytes in it holds, oldest first,
  the bytes at \<open>r, r+1, ...\<close> modulo 8.
\<close>

definition ring_q :: "byte list \<Rightarrow> nat \<Rightarrow> nat \<Rightarrow> byte list" where
  "ring_q buf r n = map (\<lambda>k. buf ! ((r + k) mod 8)) [0..<n]"

lemma ring_q_length: "length (ring_q buf r n) = n" by (simp add: ring_q_def)

lemma mod8_neq: "k < n \<Longrightarrow> n < 8 \<Longrightarrow> (r + k) mod 8 \<noteq> (r + n) mod (8::nat)"
proof
  assume a: "k < n" "n < 8" and e: "(r + k) mod 8 = (r + n) mod (8::nat)"
  from e have "(r + k + (n - k)) mod 8 = (r + k) mod 8" using a by simp
  then have "(n - k) mod 8 = 0"
    by (metis add_diff_cancel_left' mod_eq_dvd_iff_nat dvd_imp_mod_0 le_add1)
  with a show False by simp
qed

lemma ring_q_put:
  assumes "length buf = 8" "n < 8"
  shows "ring_q (buf[(r + n) mod 8 := b]) r (Suc n) = ring_q buf r n @ [b]"
proof -
  have "buf[(r + n) mod 8 := b] ! ((r + k) mod 8) = buf ! ((r + k) mod 8)" if "k < n" for k
    using that assms mod8_neq [of k n r] by (simp add: nth_list_update)
  then show ?thesis using assms by (simp add: ring_q_def)
qed

lemma ring_q_get:
  "ring_q buf r (Suc n) = buf ! (r mod 8) # ring_q buf ((r + 1) mod 8) n"
proof -
  have "[0..<Suc n] = 0 # map Suc [0..<n]" by (simp add: upt_conv_Cons map_Suc_upt del: upt_Suc)
  then show ?thesis by (simp add: ring_q_def comp_def mod_simps del: upt_Suc)
qed

lemma m7: "(7::byte) = mask 3" by (simp add: mask_eq_exp_minus_1)
lemma unat_and_7: "unat ((x::byte) AND 7) = unat x mod 8"
  unfolding m7 by (simp add: unsigned_take_bit_eq take_bit_eq_mod unat_mod flip: take_bit_eq_mask)
lemma unat_succ_and_7: "unat (((p::byte) + 1) AND 7) = (unat p + 1) mod 8"
  by (simp add: unat_and_7 unat_word_ariths mod_mod_cancel)

definition rx_inv :: "uart \<Rightarrow> bool" where
  "rx_inv s \<longleftrightarrow> length (rcv_buff s) = 8 \<and> unat (buffered_rcv s) \<le> 8 \<and> unat (rcv_read_pos s) < 8
     \<and> unat (rcv_write_pos s) = (unat (rcv_read_pos s) + unat (buffered_rcv s)) mod 8"

definition rx_queue :: "uart \<Rightarrow> byte list" where
  "rx_queue s = ring_q (rcv_buff s) (unat (rcv_read_pos s)) (unat (buffered_rcv s))"

definition tx_inv :: "uart \<Rightarrow> bool" where
  "tx_inv s \<longleftrightarrow> length (tr_buff s) = 8 \<and> unat (buffered_tr s) \<le> 8 \<and> unat (tr_read_pos s) < 8
     \<and> unat (tr_write_pos s) = (unat (tr_read_pos s) + unat (buffered_tr s)) mod 8"

definition tx_queue :: "uart \<Rightarrow> byte list" where
  "tx_queue s = ring_q (tr_buff s) (unat (tr_read_pos s)) (unat (buffered_tr s))"

lemma byte_lt8: "(b::byte) < 8 \<longleftrightarrow> unat b < 8" by (simp add: word_less_nat_alt)
lemma byte_succ8: "(b::byte) < 8 \<Longrightarrow> unat (b + 1) = Suc (unat b)" by (rule unat_byte_succ)
lemma byte_pred: "(b::byte) \<noteq> 0 \<Longrightarrow> unat (b - 1) = unat b - 1" by (simp add: unat_minus_one)

lemma isr_receive_full:
  "\<not> buffered_rcv s < 8 \<Longrightarrow> isr_receive s = s\<lparr>RI := False\<rparr>"
  by (simp add: isr_receive_def)

lemma isr_receive_put:
  assumes "rx_inv s" "buffered_rcv s < 8"
  shows "rx_queue (isr_receive s) = rx_queue s @ [SBUF_in s]" and "rx_inv (isr_receive s)"
proof -
  from assms have n: "unat (buffered_rcv s) < 8" by (simp add: byte_lt8)
  show "rx_queue (isr_receive s) = rx_queue s @ [SBUF_in s]"
    using assms n ring_q_put [of "rcv_buff s" "unat (buffered_rcv s)" "unat (rcv_read_pos s)" "SBUF_in s"]
    by (simp add: isr_receive_def rx_queue_def rx_inv_def byte_succ8)
  show "rx_inv (isr_receive s)"
    using assms n by (simp add: isr_receive_def rx_inv_def byte_succ8 unat_succ_and_7 mod_simps)
qed

lemma UART_read_empty: "buffered_rcv s = 0 \<Longrightarrow> UART_read s = (0, s)"
  by (simp add: UART_read_def)

lemma UART_read_get:
  assumes "rx_inv s" "buffered_rcv s \<noteq> 0"
  shows "fst (UART_read s) = hd (rx_queue s)" and "rx_queue (snd (UART_read s)) = tl (rx_queue s)"
    and "rx_inv (snd (UART_read s))"
proof -
  from assms obtain n where n: "unat (buffered_rcv s) = Suc n"
    by (metis not0_implies_Suc unat_eq_0)
  have q: "rx_queue s = rcv_buff s ! unat (rcv_read_pos s)
             # ring_q (rcv_buff s) ((unat (rcv_read_pos s) + 1) mod 8) n"
    using assms by (simp add: rx_queue_def n ring_q_get rx_inv_def)
  from assms have pos: "0 < buffered_rcv s" by (simp add: word_gt_0)
  show "fst (UART_read s) = hd (rx_queue s)" using pos by (simp add: UART_read_def q)
  have "rx_queue (snd (UART_read s)) = ring_q (rcv_buff s) ((unat (rcv_read_pos s) + 1) mod 8) n"
    using pos assms by (simp add: UART_read_def rx_queue_def unat_succ_and_7 byte_pred n)
  then show "rx_queue (snd (UART_read s)) = tl (rx_queue s)" by (simp add: q)
  show "rx_inv (snd (UART_read s))"
    using pos assms n by (simp add: UART_read_def rx_inv_def unat_succ_and_7 byte_pred mod_simps)
qed

lemma tr_put_full: "\<not> buffered_tr s < 8 \<Longrightarrow> tr_put b s = s"
  by (simp add: tr_put_def)

lemma tr_put_room:
  assumes "tx_inv s" "buffered_tr s < 8"
  shows "tx_queue (tr_put b s) = tx_queue s @ [b]" and "tx_inv (tr_put b s)"
proof -
  from assms have n: "unat (buffered_tr s) < 8" by (simp add: byte_lt8)
  show "tx_queue (tr_put b s) = tx_queue s @ [b]"
    using assms n ring_q_put [of "tr_buff s" "unat (buffered_tr s)" "unat (tr_read_pos s)" b]
    by (simp add: tr_put_def tx_queue_def tx_inv_def byte_succ8)
  show "tx_inv (tr_put b s)"
    using assms n by (simp add: tr_put_def tx_inv_def byte_succ8 unat_succ_and_7 mod_simps)
qed

lemma tr_put_wire [simp]: "wire (tr_put b s) = wire s"
  by (simp add: tr_put_def)

lemma isr_transmit_empty:
  "buffered_tr s = 0 \<Longrightarrow> isr_transmit s = s\<lparr>TI := False, tr_armed := False\<rparr>"
  by (simp add: isr_transmit_def)

lemma isr_transmit_get:
  assumes "tx_inv s" "buffered_tr s \<noteq> 0"
  shows "wire (isr_transmit s) = wire s @ [hd (tx_queue s)]"
    and "tx_queue (isr_transmit s) = tl (tx_queue s)"
    and "tx_inv (isr_transmit s)"
proof -
  from assms obtain n where n: "unat (buffered_tr s) = Suc n"
    by (metis not0_implies_Suc unat_eq_0)
  have q: "tx_queue s = tr_buff s ! unat (tr_read_pos s)
             # ring_q (tr_buff s) ((unat (tr_read_pos s) + 1) mod 8) n"
    using assms by (simp add: tx_queue_def n ring_q_get tx_inv_def)
  from assms have pos: "0 < buffered_tr s" by (simp add: word_gt_0)
  show "wire (isr_transmit s) = wire s @ [hd (tx_queue s)]"
    using pos by (simp add: isr_transmit_def q)
  have "tx_queue (isr_transmit s) = ring_q (tr_buff s) ((unat (tr_read_pos s) + 1) mod 8) n"
    using pos assms by (simp add: isr_transmit_def tx_queue_def unat_succ_and_7 byte_pred n)
  then show "tx_queue (isr_transmit s) = tl (tx_queue s)" by (simp add: q)
  show "tx_inv (isr_transmit s)"
    using pos assms n by (simp add: isr_transmit_def tx_inv_def unat_succ_and_7 byte_pred mod_simps)
qed

text \<open>The two branches of the handler work on different rings.\<close>

lemma isr_receive_tx [simp]:
  "tx_queue (isr_receive s) = tx_queue s" "tx_inv (isr_receive s) = tx_inv s"
  "wire (isr_receive s) = wire s" "buffered_tr (isr_receive s) = buffered_tr s"
  "tr_armed (isr_receive s) = tr_armed s" "TI (isr_receive s) = TI s"
  "env (isr_receive s) = env s"
  by (simp_all add: isr_receive_def tx_queue_def tx_inv_def Let_def)

lemma isr_transmit_rx [simp]:
  "rx_queue (isr_transmit s) = rx_queue s" "rx_inv (isr_transmit s) = rx_inv s"
  "buffered_rcv (isr_transmit s) = buffered_rcv s" "RI (isr_transmit s) = RI s"
  "SBUF_in (isr_transmit s) = SBUF_in s" "env (isr_transmit s) = env s"
  by (simp_all add: isr_transmit_def rx_queue_def rx_inv_def Let_def)

lemma queue_length [simp]:
  "length (rx_queue s) = unat (buffered_rcv s)" "length (tx_queue s) = unat (buffered_tr s)"
  by (simp_all add: rx_queue_def tx_queue_def ring_q_length)

lemma byte_zero_queue: "buffered_rcv s = 0 \<longleftrightarrow> rx_queue s = []" "buffered_tr s = 0 \<longleftrightarrow> tx_queue s = []"
  by (metis length_0_conv queue_length(1) unat_eq_0, metis length_0_conv queue_length(2) unat_eq_0)

section \<open>The queue of the specification\<close>

text \<open>
  The RingBuffer of the specification, in its words: a queue of capacity 8; a write when
  the count equals the capacity is a no-op; a read takes the oldest byte. What a read of
  the empty queue delivers is the parameter \<open>on_empty\<close>: the specification says one zero
  byte, \<open>[0]\<close>.
\<close>

datatype ring_op = Enqueue byte | Dequeue

definition fifo_enqueue :: "byte \<Rightarrow> byte list \<Rightarrow> byte list" where
  "fifo_enqueue b q = (if length q = 8 then q else q @ [b])"

definition fifo_dequeue :: "byte list \<Rightarrow> byte list \<Rightarrow> byte list \<times> byte list" where
  "fifo_dequeue on_empty q = (case q of [] \<Rightarrow> (on_empty, []) | x # xs \<Rightarrow> ([x], xs))"

fun fifo_run :: "byte list \<Rightarrow> ring_op list \<Rightarrow> byte list \<Rightarrow> byte list \<times> byte list" where
  "fifo_run on_empty [] q = ([], q)"
| "fifo_run on_empty (Enqueue b # ops) q = fifo_run on_empty ops (fifo_enqueue b q)"
| "fifo_run on_empty (Dequeue # ops) q =
     (let (out, q1) = fifo_dequeue on_empty q; (outs, q2) = fifo_run on_empty ops q1
      in (out @ outs, q2))"

text \<open>
  The operations of the code on the two rings. Receive ring: the handler stores an arrived
  byte, UART_read takes one out and returns it. Transmit ring: UART_send stores (\<open>tr_put\<close>),
  the handler takes one out and writes it to SBUF; what it delivers is what it adds to the
  wire.
\<close>

fun rx_op :: "ring_op \<Rightarrow> uart \<Rightarrow> byte list \<times> uart" where
  "rx_op (Enqueue b) s = ([], hw_event (RxByte b) s)"
| "rx_op Dequeue s = (let (r, s1) = UART_read s in ([r], s1))"

fun tx_op :: "ring_op \<Rightarrow> uart \<Rightarrow> byte list \<times> uart" where
  "tx_op (Enqueue b) s = ([], tr_put b s)"
| "tx_op Dequeue s = (let s1 = hw_event TxDone s in (drop (length (wire s)) (wire s1), s1))"

fun run_ops :: "(ring_op \<Rightarrow> uart \<Rightarrow> byte list \<times> uart) \<Rightarrow> ring_op list \<Rightarrow> uart
                  \<Rightarrow> byte list \<times> uart" where
  "run_ops f [] s = ([], s)"
| "run_ops f (x # ops) s =
     (let (out, s1) = f x s; (outs, s2) = run_ops f ops s1 in (out @ outs, s2))"

lemma rx_inv_flags [simp]:
  "rx_inv (s\<lparr>RI := r\<rparr>) = rx_inv s" "rx_inv (s\<lparr>SBUF_in := b\<rparr>) = rx_inv s"
  "rx_queue (s\<lparr>RI := r\<rparr>) = rx_queue s" "rx_queue (s\<lparr>SBUF_in := b\<rparr>) = rx_queue s"
  "rx_inv (s\<lparr>TI := r\<rparr>) = rx_inv s" "rx_queue (s\<lparr>TI := r\<rparr>) = rx_queue s"
  "rx_inv (s\<lparr>env := e\<rparr>) = rx_inv s" "rx_queue (s\<lparr>env := e\<rparr>) = rx_queue s"
  by (simp_all add: rx_inv_def rx_queue_def)

lemma tx_inv_flags [simp]:
  "tx_inv (s\<lparr>RI := r\<rparr>) = tx_inv s" "tx_inv (s\<lparr>SBUF_in := b\<rparr>) = tx_inv s"
  "tx_queue (s\<lparr>RI := r\<rparr>) = tx_queue s" "tx_queue (s\<lparr>SBUF_in := b\<rparr>) = tx_queue s"
  "tx_inv (s\<lparr>TI := r\<rparr>) = tx_inv s" "tx_queue (s\<lparr>TI := r\<rparr>) = tx_queue s"
  "tx_inv (s\<lparr>tr_armed := r\<rparr>) = tx_inv s" "tx_queue (s\<lparr>tr_armed := r\<rparr>) = tx_queue s"
  "tx_inv (s\<lparr>env := e\<rparr>) = tx_inv s" "tx_queue (s\<lparr>env := e\<rparr>) = tx_queue s"
  "tx_inv (s\<lparr>SMOD := r\<rparr>) = tx_inv s" "tx_queue (s\<lparr>SMOD := r\<rparr>) = tx_queue s"
  by (simp_all add: tx_inv_def tx_queue_def)

lemma isr_receive_fifo:
  assumes "rx_inv s"
  shows "rx_queue (isr_receive s) = fifo_enqueue (SBUF_in s) (rx_queue s)"
    and "rx_inv (isr_receive s)"
proof -
  show "rx_queue (isr_receive s) = fifo_enqueue (SBUF_in s) (rx_queue s)"
  proof (cases "buffered_rcv s < 8")
    case True
    then have "length (rx_queue s) \<noteq> 8" by (simp add: byte_lt8)
    then show ?thesis using True assms by (simp add: isr_receive_put fifo_enqueue_def)
  next
    case False
    then have "length (rx_queue s) = 8" using assms by (simp add: byte_lt8 rx_inv_def)
    then show ?thesis using False by (simp add: isr_receive_full fifo_enqueue_def)
  qed
  show "rx_inv (isr_receive s)"
    using assms by (cases "buffered_rcv s < 8") (simp_all add: isr_receive_put isr_receive_full)
qed

lemma hw_rx_fifo:
  assumes "rx_inv s"
  shows "rx_queue (hw_event (RxByte b) s) = fifo_enqueue b (rx_queue s)"
    and "rx_inv (hw_event (RxByte b) s)"
  using assms isr_receive_fifo [of "s\<lparr>SBUF_in := b, RI := True\<rparr>"]
  by (simp_all add: UART_ISR_def Let_def)

lemma UART_read_fifo:
  assumes "rx_inv s"
  shows "([fst (UART_read s)], rx_queue (snd (UART_read s))) = fifo_dequeue [0] (rx_queue s)"
    and "rx_inv (snd (UART_read s))"
proof -
  show "([fst (UART_read s)], rx_queue (snd (UART_read s))) = fifo_dequeue [0] (rx_queue s)"
  proof (cases "buffered_rcv s = 0")
    case True
    then have "rx_queue s = []" by (simp add: byte_zero_queue)
    with True show ?thesis by (simp add: UART_read_empty fifo_dequeue_def)
  next
    case False
    then have "rx_queue s \<noteq> []" by (simp add: byte_zero_queue)
    then show ?thesis using False assms
      by (cases "rx_queue s") (simp_all add: UART_read_get fifo_dequeue_def)
  qed
  show "rx_inv (snd (UART_read s))"
    using assms by (cases "buffered_rcv s = 0") (simp_all add: UART_read_empty UART_read_get)
qed

lemma isr_transmit_fifo:
  assumes "tx_inv s"
  shows "(drop (length (wire s)) (wire (isr_transmit s)), tx_queue (isr_transmit s))
           = fifo_dequeue [] (tx_queue s)"
    and "tx_inv (isr_transmit s)"
proof -
  show "(drop (length (wire s)) (wire (isr_transmit s)), tx_queue (isr_transmit s))
           = fifo_dequeue [] (tx_queue s)"
  proof (cases "buffered_tr s = 0")
    case True
    then have "tx_queue s = []" by (simp add: byte_zero_queue)
    with True show ?thesis by (simp add: isr_transmit_empty fifo_dequeue_def)
  next
    case False
    then have "tx_queue s \<noteq> []" by (simp add: byte_zero_queue)
    then show ?thesis using False assms
      by (cases "tx_queue s") (simp_all add: isr_transmit_get fifo_dequeue_def)
  qed
  show "tx_inv (isr_transmit s)"
    using assms by (cases "buffered_tr s = 0") (simp_all add: isr_transmit_empty isr_transmit_get)
qed

lemma hw_tx_fifo:
  assumes "tx_inv s"
  shows "(drop (length (wire s)) (wire (hw_event TxDone s)), tx_queue (hw_event TxDone s))
           = fifo_dequeue [] (tx_queue s)"
    and "tx_inv (hw_event TxDone s)"
proof -
  let ?t = "if RI s then isr_receive (s\<lparr>TI := True\<rparr>) else s\<lparr>TI := True\<rparr>"
  have t: "tx_inv ?t" "tx_queue ?t = tx_queue s" "wire ?t = wire s" "TI ?t"
    using assms by simp_all
  have h: "hw_event TxDone s = isr_transmit ?t"
    by (simp add: UART_ISR_def Let_def)
  show "(drop (length (wire s)) (wire (hw_event TxDone s)), tx_queue (hw_event TxDone s))
           = fifo_dequeue [] (tx_queue s)"
    unfolding h using isr_transmit_fifo(1) [OF t(1)] t by simp
  show "tx_inv (hw_event TxDone s)"
    unfolding h using isr_transmit_fifo(2) [OF t(1)] .
qed

lemma tr_put_fifo:
  assumes "tx_inv s"
  shows "tx_queue (tr_put b s) = fifo_enqueue b (tx_queue s)" and "tx_inv (tr_put b s)"
proof -
  show "tx_queue (tr_put b s) = fifo_enqueue b (tx_queue s)"
  proof (cases "buffered_tr s < 8")
    case True
    then have "length (tx_queue s) \<noteq> 8" by (simp add: byte_lt8)
    then show ?thesis using True assms by (simp add: tr_put_room fifo_enqueue_def)
  next
    case False
    then have "length (tx_queue s) = 8" using assms by (simp add: byte_lt8 tx_inv_def)
    then show ?thesis using False by (simp add: tr_put_full fifo_enqueue_def)
  qed
  show "tx_inv (tr_put b s)"
    using assms by (cases "buffered_tr s < 8") (simp_all add: tr_put_room tr_put_full)
qed

lemma rx_run_refines:
  "rx_inv s \<Longrightarrow> fst (run_ops rx_op ops s) = fst (fifo_run [0] ops (rx_queue s))
     \<and> rx_queue (snd (run_ops rx_op ops s)) = snd (fifo_run [0] ops (rx_queue s))
     \<and> rx_inv (snd (run_ops rx_op ops s))"
proof (induction ops arbitrary: s)
  case Nil
  then show ?case by simp
next
  case (Cons x ops)
  show ?case
  proof (cases x)
    case (Enqueue b)
    then show ?thesis
      using Cons.IH [OF hw_rx_fifo(2) [OF Cons.prems, of b]] hw_rx_fifo(1) [OF Cons.prems, of b]
      by (simp add: split_def del: hw_event.simps)
  next
    case Dequeue
    have d: "fifo_dequeue [0] (rx_queue s) = ([fst (UART_read s)], rx_queue (snd (UART_read s)))"
      using UART_read_fifo(1) [OF Cons.prems] by simp
    show ?thesis
      using Cons.IH [OF UART_read_fifo(2) [OF Cons.prems]] Dequeue
      by (simp add: split_def d Let_def)
  qed
qed

lemma tx_run_refines:
  "tx_inv s \<Longrightarrow> fst (run_ops tx_op ops s) = fst (fifo_run [] ops (tx_queue s))
     \<and> tx_queue (snd (run_ops tx_op ops s)) = snd (fifo_run [] ops (tx_queue s))
     \<and> tx_inv (snd (run_ops tx_op ops s))"
proof (induction ops arbitrary: s)
  case Nil
  then show ?case by simp
next
  case (Cons x ops)
  show ?case
  proof (cases x)
    case (Enqueue b)
    then show ?thesis
      using Cons.IH [OF tr_put_fifo(2) [OF Cons.prems, of b]] tr_put_fifo(1) [OF Cons.prems, of b]
      by (simp add: split_def)
  next
    case Dequeue
    have d: "fifo_dequeue [] (tx_queue s)
               = (drop (length (wire s)) (wire (hw_event TxDone s)), tx_queue (hw_event TxDone s))"
      using hw_tx_fifo(1) [OF Cons.prems] by simp
    show ?thesis
      using Cons.IH [OF hw_tx_fifo(2) [OF Cons.prems]] Dequeue
      by (simp add: split_def d Let_def del: hw_event.simps)
  qed
qed

text \<open>
  What has been handed to the transmitter and not lost: the bytes already written to SBUF,
  then the bytes still waiting in the ring.
\<close>

definition tx_stream :: "uart \<Rightarrow> byte list" where
  "tx_stream s = wire s @ tx_queue s"

lemma isr_transmit_stream:
  assumes "tx_inv s"
  shows "tx_stream (isr_transmit s) = tx_stream s" and "buffered_tr (isr_transmit s) \<le> buffered_tr s"
proof -
  show "tx_stream (isr_transmit s) = tx_stream s"
  proof (cases "buffered_tr s = 0")
    case True
    then show ?thesis by (simp add: isr_transmit_empty tx_stream_def)
  next
    case False
    then have "tx_queue s \<noteq> []" by (simp add: byte_zero_queue)
    then show ?thesis using False assms by (simp add: isr_transmit_get tx_stream_def)
  qed
  show "buffered_tr (isr_transmit s) \<le> buffered_tr s"
    by (simp add: isr_transmit_def Let_def word_gt_0 word_le_nat_alt byte_pred)
qed

lemma UART_ISR_stream:
  assumes "tx_inv s"
  shows "tx_stream (UART_ISR s) = tx_stream s" and "tx_inv (UART_ISR s)"
    and "buffered_tr (UART_ISR s) \<le> buffered_tr s"
proof -
  let ?t = "if RI s then isr_receive s else s"
  have t: "tx_inv ?t" "tx_stream ?t = tx_stream s" "buffered_tr ?t = buffered_tr s"
    using assms by (simp_all add: tx_stream_def)
  have u: "UART_ISR s = (if TI ?t then isr_transmit ?t else ?t)"
    by (simp add: UART_ISR_def Let_def)
  show "tx_stream (UART_ISR s) = tx_stream s"
    unfolding u using t isr_transmit_stream(1) [OF t(1)] by (simp split: if_splits)
  show "tx_inv (UART_ISR s)"
    unfolding u using t isr_transmit_fifo(2) [OF t(1)] by (simp split: if_splits)
  show "buffered_tr (UART_ISR s) \<le> buffered_tr s"
    unfolding u using t isr_transmit_stream(2) [OF t(1)] by (simp split: if_splits)
qed

lemma tx_stream_flags [simp]:
  "tx_stream (s\<lparr>RI := r\<rparr>) = tx_stream s" "tx_stream (s\<lparr>SBUF_in := b\<rparr>) = tx_stream s"
  "tx_stream (s\<lparr>TI := r\<rparr>) = tx_stream s" "tx_stream (s\<lparr>tr_armed := r\<rparr>) = tx_stream s"
  "tx_stream (s\<lparr>env := e\<rparr>) = tx_stream s" "tx_stream (s\<lparr>SMOD := r\<rparr>) = tx_stream s"
  by (simp_all add: tx_stream_def)

lemma hw_event_stream:
  assumes "tx_inv s"
  shows "tx_stream (hw_event e s) = tx_stream s \<and> tx_inv (hw_event e s)
           \<and> buffered_tr (hw_event e s) \<le> buffered_tr s"
proof (cases e)
  case (RxByte b)
  then show ?thesis using assms UART_ISR_stream [of "s\<lparr>SBUF_in := b, RI := True\<rparr>"] by simp
next
  case TxDone
  then show ?thesis using assms UART_ISR_stream [of "s\<lparr>TI := True\<rparr>"] by simp
qed

lemma events_stream:
  "tx_inv s \<Longrightarrow> tx_stream (fold hw_event es s) = tx_stream s \<and> tx_inv (fold hw_event es s)
           \<and> buffered_tr (fold hw_event es s) \<le> buffered_tr s"
proof (induction es arbitrary: s)
  case Nil
  then show ?case by simp
next
  case (Cons e es)
  from hw_event_stream [OF Cons.prems, of e] Cons.IH [of "hw_event e s"]
  show ?case by (auto simp del: hw_event.simps)
qed

lemma delay_stream:
  assumes "tx_inv s"
  shows "tx_stream (delay n s) = tx_stream s" and "tx_inv (delay n s)"
    and "buffered_tr (delay n s) \<le> buffered_tr s"
  using assms events_stream [of "s\<lparr>env := tl (env s)\<rparr>" "hd (env s)"]
  by (auto simp: delay_def split: list.splits)

lemma UART_send_stream:
  assumes "tx_inv s" "buffered_tr s < 8"
  shows "tx_stream (UART_send b s) = tx_stream s @ [b]" and "tx_inv (UART_send b s)"
    and "unat (buffered_tr (UART_send b s)) \<le> Suc (unat (buffered_tr s))"
    and "\<not> tr_armed s \<Longrightarrow> buffered_tr (UART_send b s) \<le> buffered_tr s"
proof -
  let ?p = "tr_put b s"
  have p: "tx_inv ?p" "tx_stream ?p = tx_stream s @ [b]" "unat (buffered_tr ?p) = Suc (unat (buffered_tr s))"
    "tr_armed ?p = tr_armed s"
    using assms by (simp_all add: tr_put_room tx_stream_def) (simp_all add: tr_put_def byte_succ8)
  let ?a = "tr_arm ?p"
  have a: "tx_inv ?a" "tx_stream ?a = tx_stream s @ [b]" "buffered_tr ?a = buffered_tr ?p"
    using p by (simp_all add: tr_arm_def)
  let ?i = "sei ?a"
  have i: "tx_inv ?i" "tx_stream ?i = tx_stream s @ [b]" "buffered_tr ?i \<le> buffered_tr ?p"
    using a UART_ISR_stream [OF a(1)] by (simp_all add: sei_def)
  show "tx_stream (UART_send b s) = tx_stream s @ [b]" "tx_inv (UART_send b s)"
    using i delay_stream [OF i(1)] by (simp_all add: UART_send_def)
  have "buffered_tr (UART_send b s) \<le> buffered_tr ?p"
    using i(3) delay_stream(3) [OF i(1), of 1] by (simp add: UART_send_def)
  then show "unat (buffered_tr (UART_send b s)) \<le> Suc (unat (buffered_tr s))"
    using p(3) by (simp add: word_le_nat_alt)
  show "buffered_tr (UART_send b s) \<le> buffered_tr s" if "\<not> tr_armed s"
  proof -
    have ti: "TI ?a" "\<not> RI ?a \<or> True" using that p(4) by (simp_all add: tr_arm_def)
    let ?r = "if RI ?a then isr_receive ?a else ?a"
    have r: "TI ?r" "buffered_tr ?r = buffered_tr ?p" "tx_inv ?r" using ti a by simp_all
    have "?i = isr_transmit ?r" using ti r by (simp add: sei_def UART_ISR_def Let_def)
    moreover have "buffered_tr ?r \<noteq> 0" using r(2) p(3) by (metis Zero_not_Suc unat_eq_0)
    ultimately have "unat (buffered_tr ?i) = unat (buffered_tr s)"
      using r(2) p(3) by (simp add: isr_transmit_def Let_def word_gt_0 byte_pred)
    then have "buffered_tr ?i \<le> buffered_tr s" by (simp add: word_le_nat_alt)
    then show ?thesis using delay_stream(3) [OF i(1), of 1] by (simp add: UART_send_def)
  qed
qed

section \<open>The master frame: LIN_send_data\<close>

text \<open>
  The checksum as the specification writes it, on the integers:
  \<open>~((sum(protectedId, data) & 0xFF) + (sum >> 8)) & 0xFF\<close>.
\<close>

definition spec_checksum :: "byte \<Rightarrow> byte list \<Rightarrow> int" where
  "spec_checksum p d =
     (let S = uint p + sum_list (map uint d)
      in NOT ((S AND 0xFF) + drop_bit 8 S) AND 0xFF)"

lemma uint_ucast_byte: "uint (ucast (b::byte) :: word16) = uint b"
proof -
  have "uint b < 2 ^ 16" using uint_bounded [of b] by simp
  then show ?thesis by (simp add: unsigned_ucast_eq take_bit_int_eq_self)
qed

lemma sum_bytes_bound: "sum_list (map uint (d::byte list)) \<le> 255 * int (length d)"
proof (induction d)
  case Nil
  then show ?case by simp
next
  case (Cons b d)
  have "uint b \<le> 255" using uint_bounded [of b] by simp
  with Cons show ?case by (simp add: algebra_simps)
qed

lemma sum_bytes_nonneg: "0 \<le> sum_list (map uint (d::byte list))"
  by (induction d) simp_all

lemma uint_sum16_aux:
  "uint c + sum_list (map uint d) < 65536 \<Longrightarrow>
   uint ((c::word16) + sum_list (map ucast (d::byte list))) = uint c + sum_list (map uint d)"
proof (induction d arbitrary: c)
  case Nil
  then show ?case by simp
next
  case (Cons b d)
  have nn: "0 \<le> sum_list (map uint d)" by (rule sum_bytes_nonneg)
  have "uint c + uint b < 65536" using Cons.prems nn by simp
  then have cb: "uint (c + ucast b) = uint c + uint b"
    using uint_add_lem [of c "ucast b :: word16"] by (simp add: uint_ucast_byte)
  have "uint ((c + ucast b) + sum_list (map ucast d)) = uint (c + ucast b) + sum_list (map uint d)"
    using Cons.prems cb by (intro Cons.IH) simp
  then show ?case by (simp add: cb add.assoc)
qed

lemma word16_drop_bit_uint: "word_of_int (drop_bit 8 (uint w)) = drop_bit 8 (w::word16)"
  by (rule bit_word_eqI) (auto simp: bit_simps)

lemma word16_low_uint: "(word_of_int (uint w AND 0xFF) :: word16) = w AND 0xFF"
  by (simp add: of_int_and_eq)

lemma word16_fold_sum:
  "((w::word16) AND 0xFF) + drop_bit 8 w = word_of_int ((uint w AND 0xFF) + drop_bit 8 (uint w))"
  using word16_drop_bit_uint word16_low_uint by simp

lemma byte_mask: "(0xFF::int) = mask 8" "(0xFF::word16) = mask 8"
  by (simp_all add: mask_eq_exp_minus_1)

lemma byte_complement_low:
  "(ucast (((word_of_int X :: word16) XOR 0xFF) AND 0xFF) :: byte) = word_of_int (NOT X AND 0xFF)"
  unfolding byte_mask by (rule bit_word_eqI) (simp add: bit_simps)

lemma fold_checksum_low_byte:
  "(ucast (fold_checksum w AND 0xFF) :: byte)
     = word_of_int (NOT ((uint w AND 0xFF) + drop_bit 8 (uint w)) AND 0xFF)"
  unfolding fold_checksum_def word16_fold_sum by (rule byte_complement_low)

lemma checksum_byte_spec:
  assumes "length d \<le> 255"
  shows "(ucast (fold_checksum (ucast p + sum_list (map ucast d)) AND 0xFF) :: byte)
           = word_of_int (spec_checksum p d)"
proof -
  have "uint p \<le> 255" using uint_bounded [of p] by simp
  moreover have "int (length d) \<le> 255" using assms by simp
  then have "sum_list (map uint d) \<le> 255 * 255"
    using sum_bytes_bound [of d] by linarith
  ultimately have "uint (ucast p :: word16) + sum_list (map uint d) < 65536"
    by (simp add: uint_ucast_byte)
  then have "uint (ucast p + sum_list (map ucast d) :: word16) = uint p + sum_list (map uint d)"
    using uint_sum16_aux [of "ucast p" d] by (simp add: uint_ucast_byte)
  then show ?thesis by (simp add: fold_checksum_low_byte spec_checksum_def Let_def)
qed

lemma spec_checksum_range: "0 \<le> spec_checksum p d \<and> spec_checksum p d < 256"
proof -
  have "0 \<le> spec_checksum p d" by (simp add: spec_checksum_def Let_def)
  moreover have "spec_checksum p d \<le> 0xFF"
    unfolding spec_checksum_def Let_def by (rule AND_upper2) simp
  ultimately show ?thesis by simp
qed

lemma send_loop_eq:
  "unat len \<le> length data \<Longrightarrow>
   send_loop data len i c s =
     (c + sum_list (map ucast (take (unat len - unat i) (drop (unat i) data))),
      fold UART_send (take (unat len - unat i) (drop (unat i) data)) s)"
proof (induction data len i c s rule: send_loop.induct)
  case (1 data len i checksum s)
  show ?case
  proof (cases "i < len")
    case True
    then have u: "unat (i + 1) = Suc (unat i)" by (rule unat_byte_succ)
    from True have lt: "unat i < unat len" by (simp add: word_less_nat_alt)
    then have d: "drop (unat i) data = data ! unat i # drop (Suc (unat i)) data"
      using "1.prems" by (simp add: Cons_nth_drop_Suc)
    have t: "unat len - unat i = Suc (unat len - Suc (unat i))" using lt by simp
    show ?thesis
      using "1.IH" [OF True "1.prems"] True
      by (subst send_loop.simps) (simp add: u d t add.assoc)
  next
    case False
    then have "unat len - unat i = 0" by (simp add: word_less_nat_alt)
    then show ?thesis using False by (subst send_loop.simps) simp
  qed
qed

lemma LIN_send_data_eq:
  assumes "length d \<le> 255"
  shows "LIN_send_data d (of_nat (length d)) p s
           = fold UART_send (d @ [word_of_int (spec_checksum p d)]) s"
proof -
  have l: "unat (of_nat (length d) :: byte) = length d"
    using assms by (simp add: unat_of_nat take_bit_nat_eq_self)
  show ?thesis
    using assms by (simp add: LIN_send_data_def send_loop_eq l checksum_byte_spec)
qed

text \<open>A run of calls of UART_send that the ring has room for loses nothing.\<close>

lemma sends_stream:
  "tx_inv s \<Longrightarrow> unat (buffered_tr s) + length bs \<le> 8 \<Longrightarrow>
   tx_stream (fold UART_send bs s) = tx_stream s @ bs \<and> tx_inv (fold UART_send bs s)
     \<and> unat (buffered_tr (fold UART_send bs s)) \<le> unat (buffered_tr s) + length bs"
proof (induction bs arbitrary: s)
  case Nil
  then show ?case by simp
next
  case (Cons b bs)
  from Cons.prems have room: "buffered_tr s < 8" by (simp add: byte_lt8)
  note u = UART_send_stream [OF Cons.prems(1) room, of b]
  have "unat (buffered_tr (UART_send b s)) + length bs \<le> 8" using u(3) Cons.prems(2) by simp
  from Cons.IH [OF u(2) this] u show ?case by simp
qed

lemma sends_stream_idle:
  assumes "tx_inv s" "buffered_tr s = 0" "\<not> tr_armed s" "length bs \<le> 9"
  shows "tx_stream (fold UART_send bs s) = tx_stream s @ bs"
proof (cases bs)
  case Nil
  then show ?thesis by simp
next
  case (Cons b rest)
  from assms have room: "buffered_tr s < 8" by simp
  note u = UART_send_stream [OF assms(1) room, of b]
  have "buffered_tr (UART_send b s) = 0" using u(4) assms by simp
  then show ?thesis
    using sends_stream [OF u(2), of rest] u(1) assms(4) Cons by simp
qed

lemma uart_init_inv: "rx_inv uart_init" "tx_inv uart_init"
  by (simp_all add: rx_inv_def tx_inv_def uart_init_def)

lemma uart_init_queues: "rx_queue uart_init = []" "tx_queue uart_init = []" "tx_stream uart_init = []"
  by (simp_all add: rx_queue_def tx_queue_def tx_stream_def ring_q_def uart_init_def)

text \<open>
  C1. For every protected ID \<open>p\<close> and payload \<open>d\<close> of at most 8 bytes, LIN_send_data
  hands to UART_send the payload bytes in order and then one checksum byte, the complement
  of the folded 16-bit sum seeded with \<open>p\<close>. Started with the transmitter idle, these
  bytes are, in this order, what is added to the bytes on the wire or waiting in the
  transmit ring, whatever the interrupts do. For protected ID 0xBA and payload 0x02, 0x00
  the bytes are 0x02, 0x00, 0x43.
\<close>

theorem LIN_send_data_frame:
  "length d \<le> 8 \<Longrightarrow>
     LIN_send_data d (of_nat (length d)) p s
       = fold UART_send (d @ [word_of_int (spec_checksum p d)]) s
   \<and> (tx_inv s \<and> buffered_tr s = 0 \<and> \<not> tr_armed s \<longrightarrow>
        tx_stream (LIN_send_data d (of_nat (length d)) p s)
          = tx_stream s @ d @ [word_of_int (spec_checksum p d)])
   \<and> 0 \<le> spec_checksum p d \<and> spec_checksum p d < 256
   \<and> LIN_send_data [0x02, 0x00] 2 0xBA s = fold UART_send [0x02, 0x00, 0x43] s"
proof -
  assume len: "length d \<le> 8"
  then have e: "LIN_send_data d (of_nat (length d)) p s
       = fold UART_send (d @ [word_of_int (spec_checksum p d)]) s"
    by (simp add: LIN_send_data_eq)
  have "tx_stream (fold UART_send (d @ [word_of_int (spec_checksum p d)]) s)
          = tx_stream s @ d @ [word_of_int (spec_checksum p d)]"
    if "tx_inv s" "buffered_tr s = 0" "\<not> tr_armed s"
    using that len sends_stream_idle [of s "d @ [word_of_int (spec_checksum p d)]"] by simp
  moreover have "spec_checksum 0xBA [0x02, 0x00] = 0x43"
    by (simp add: spec_checksum_def)
  then have "LIN_send_data [0x02, 0x00] 2 0xBA s = fold UART_send [0x02, 0x00, 0x43] s"
    using LIN_send_data_eq [of "[0x02, 0x00]" "0xBA" s] by simp
  ultimately show ?thesis using e spec_checksum_range [of p d] by simp
qed

theorem LIN_send_data_frame_witness:
  "length [0x02, 0x00 :: byte] \<le> 8 \<and> tx_inv uart_init \<and> buffered_tr uart_init = 0
   \<and> \<not> tr_armed uart_init
   \<and> tx_stream (LIN_send_data [0x02, 0x00] 2 0xBA uart_init) = [0x02, 0x00, 0x43]"
proof -
  have c: "spec_checksum 0xBA [0x02, 0x00] = 0x43"
    by (simp add: spec_checksum_def)
  have i: "buffered_tr uart_init = 0" "\<not> tr_armed uart_init" by (simp_all add: uart_init_def)
  have l: "length [0x02, 0x00 :: byte] \<le> 8" by simp
  have "tx_inv uart_init \<and> buffered_tr uart_init = 0 \<and> \<not> tr_armed uart_init \<longrightarrow>
        tx_stream (LIN_send_data [0x02, 0x00] (of_nat (length [0x02, 0x00 :: byte])) 0xBA uart_init)
          = tx_stream uart_init @ [0x02, 0x00] @ [word_of_int (spec_checksum 0xBA [0x02, 0x00])]"
    by (rule conjunct1 [OF conjunct2 [OF LIN_send_data_frame [OF l]]])
  then have "tx_stream (LIN_send_data [0x02, 0x00] 2 0xBA uart_init) = [0x02, 0x00, 0x43]"
    using c i uart_init_inv uart_init_queues by simp
  then show ?thesis using i uart_init_inv by simp
qed

section \<open>The frame header: LIN_send_request\<close>

text \<open>
  The protected ID in the words of the specification:
  \<open>p0 = bit0 \<oplus> bit1 \<oplus> bit2 \<oplus> bit4\<close>, \<open>p1 = \<not>(bit1 \<oplus> bit3 \<oplus> bit4 \<oplus> bit5)\<close>,
  \<open>protectedId = (id & 0x3F) | (p0<<6) | (p1<<7)\<close>.
\<close>

definition bxor :: "bool \<Rightarrow> bool \<Rightarrow> bool" where
  "bxor a b \<longleftrightarrow> a \<noteq> b"

definition spec_p0 :: "byte \<Rightarrow> bool" where
  "spec_p0 ID = bxor (bxor (bxor (bit ID 0) (bit ID 1)) (bit ID 2)) (bit ID 4)"

definition spec_p1 :: "byte \<Rightarrow> bool" where
  "spec_p1 ID = (\<not> bxor (bxor (bxor (bit ID 1) (bit ID 3)) (bit ID 4)) (bit ID 5))"

definition spec_protected_id :: "byte \<Rightarrow> byte" where
  "spec_protected_id ID =
     (ID AND 0x3F) OR push_bit 6 (of_bool (spec_p0 ID)) OR push_bit 7 (of_bool (spec_p1 ID))"

lemma byte_bit_at: "drop_bit k (x::byte) AND 1 = of_bool (bit x k)"
  by (simp add: bit_iff_odd_drop_bit and_one_eq mod_2_eq_odd)

lemma byte_bit_0: "(x::byte) AND 1 = of_bool (bit x 0)"
  using byte_bit_at [of 0 x] by simp

lemma of_bool_xor: "(of_bool a :: byte) XOR of_bool b = of_bool (bxor a b)"
  by (cases a; cases b) (simp_all add: bxor_def)

lemma lnot_of_bool: "lnot (of_bool a) = of_bool (\<not> a)"
  by (cases a) (simp_all add: lnot_def)

lemma ID_word_of_spec: "ID_word_of ID = spec_protected_id ID"
proof -
  have p0: "parity_0 ID = of_bool (spec_p0 ID)"
    by (simp add: parity_0_def spec_p0_def byte_bit_at byte_bit_0 of_bool_xor)
       (auto simp: bxor_def bit_drop_bit_eq)
  have p1: "parity_1 ID = push_bit 1 (of_bool (spec_p1 ID))"
    by (simp add: parity_1_def spec_p1_def byte_bit_at of_bool_xor lnot_of_bool)
       (auto simp: bxor_def bit_drop_bit_eq)
  show ?thesis
    unfolding ID_word_of_def spec_protected_id_def p0 p1
    by (cases "spec_p0 ID"; cases "spec_p1 ID") simp_all
qed

lemma wait_tr_idle_stream:
  "tx_inv s \<Longrightarrow> tx_stream (wait_tr_idle i s) = tx_stream s \<and> tx_inv (wait_tr_idle i s)
     \<and> buffered_tr (wait_tr_idle i s) \<le> buffered_tr s"
proof (induction i s rule: wait_tr_idle.induct)
  case (1 i s)
  show ?case
  proof (cases "i < 100 \<and> tr_armed s")
    case True
    note d = delay_stream [OF "1.prems", of 1]
    from "1.IH" [OF _ _ d(2)] True d show ?thesis
      by (subst (1 2 3) wait_tr_idle.simps) auto
  next
    case False
    then show ?thesis using "1.prems" by (subst (1 2 3) wait_tr_idle.simps) auto
  qed
qed

lemma LIN_send_request_stream:
  assumes "tx_inv s" "unat (buffered_tr s) \<le> 5"
  shows "tx_stream (snd (LIN_send_request ID s)) = tx_stream s @ [0x00, 0x55, ID_word_of ID]"
proof -
  define s2 where "s2 = (wait_tr_idle 0 s)\<lparr>SMOD := False\<rparr>"
  have s2: "tx_inv s2" "tx_stream s2 = tx_stream s" "unat (buffered_tr s2) \<le> 5"
    using wait_tr_idle_stream [OF assms(1), of 0] assms(2)
    by (auto simp: s2_def word_le_nat_alt)
  define s4 where "s4 = (UART_send 0x00 s2)\<lparr>SMOD := True\<rparr>"
  have r2: "buffered_tr s2 < 8" using s2(3) by (simp add: byte_lt8)
  have s4: "tx_inv s4" "tx_stream s4 = tx_stream s @ [0x00]" "unat (buffered_tr s4) \<le> 6"
    using UART_send_stream [OF s2(1) r2, of "0x00"] s2 by (auto simp: s4_def)
  define s5 where "s5 = UART_send 0x55 s4"
  have r4: "buffered_tr s4 < 8" using s4(3) by (simp add: byte_lt8)
  have s5: "tx_inv s5" "tx_stream s5 = tx_stream s @ [0x00, 0x55]" "unat (buffered_tr s5) \<le> 7"
    using UART_send_stream [OF s4(1) r4, of "0x55"] s4 by (auto simp: s5_def)
  have r5: "buffered_tr s5 < 8" using s5(3) by (simp add: byte_lt8)
  have "tx_stream (UART_send (ID_word_of ID) s5) = tx_stream s @ [0x00, 0x55, ID_word_of ID]"
    using UART_send_stream(1) [OF s5(1) r5, of "ID_word_of ID"] s5 by simp
  then show ?thesis by (simp add: LIN_send_request_def Let_def s5_def s4_def s2_def)
qed

text \<open>
  C2. For every id, LIN_send_request computes the parity bits \<open>p0\<close> and \<open>p1\<close> of the
  specification, hands to UART_send the break byte, the sync byte 0x55 and then the
  protected ID, and returns the protected ID. When the transmit ring has room for three
  bytes these are, in this order, what is added to the bytes on the wire or waiting in
  the ring. Id 0x3A gives protected ID 0xBA.
\<close>

theorem LIN_send_request_header:
  "fst (LIN_send_request ID s) = spec_protected_id ID
   \<and> snd (LIN_send_request ID s)
       = UART_send (spec_protected_id ID)
           (UART_send 0x55 ((UART_send 0x00 ((wait_tr_idle 0 s)\<lparr>SMOD := False\<rparr>))\<lparr>SMOD := True\<rparr>))
   \<and> (tx_inv s \<and> unat (buffered_tr s) \<le> 5 \<longrightarrow>
        tx_stream (snd (LIN_send_request ID s)) = tx_stream s @ [0x00, 0x55, spec_protected_id ID])
   \<and> fst (LIN_send_request 0x3A s) = 0xBA"
proof -
  have "ID_word_of 0x3A = 0xBA"
    by (simp add: ID_word_of_def parity_0_def parity_1_def lnot_def)
  then show ?thesis
    using LIN_send_request_stream [of s ID]
    by (simp add: LIN_send_request_def Let_def ID_word_of_spec)
qed

theorem LIN_send_request_header_witness:
  "tx_inv uart_init \<and> unat (buffered_tr uart_init) \<le> 5
   \<and> tx_stream (snd (LIN_send_request 0x3A uart_init)) = [0x00, 0x55, 0xBA]"
proof -
  have i: "unat (buffered_tr uart_init) \<le> 5" by (simp add: uart_init_def)
  have p: "spec_protected_id 0x3A = 0xBA"
    by (simp add: spec_protected_id_def spec_p0_def spec_p1_def bxor_def)
  have "tx_inv uart_init \<and> unat (buffered_tr uart_init) \<le> 5 \<longrightarrow>
        tx_stream (snd (LIN_send_request 0x3A uart_init))
          = tx_stream uart_init @ [0x00, 0x55, spec_protected_id 0x3A]"
    by (rule conjunct1 [OF conjunct2 [OF conjunct2 [OF LIN_send_request_header]]])
  then show ?thesis using i p uart_init_inv uart_init_queues by simp
qed

text \<open>
  C6 (as amended). Each UART ring buffer is a FIFO queue of capacity 8. From a state in
  which the ring is consistent, any sequence of enqueue and dequeue operations delivers
  what the queue of the specification delivers, in the order of the enqueues, and the
  count never exceeds 8. An enqueue while the count is 8 leaves the ring as it is and the
  byte is lost. A dequeue of the empty receive ring (UART_read) returns 0 and changes
  nothing. A dequeue of the empty transmit ring (the interrupt handler) delivers no byte
  at all: it writes nothing to SBUF, leaves the ring as it is and marks the transmitter
  idle.
\<close>

theorem ring_buffers_fifo:
  "(rx_inv s \<longrightarrow>
      fst (run_ops rx_op ops s) = fst (fifo_run [0] ops (rx_queue s))
    \<and> rx_queue (snd (run_ops rx_op ops s)) = snd (fifo_run [0] ops (rx_queue s))
    \<and> unat (buffered_rcv (snd (run_ops rx_op ops s))) \<le> 8)
   \<and> (tx_inv s \<longrightarrow>
      fst (run_ops tx_op ops s) = fst (fifo_run [] ops (tx_queue s))
    \<and> tx_queue (snd (run_ops tx_op ops s)) = snd (fifo_run [] ops (tx_queue s))
    \<and> unat (buffered_tr (snd (run_ops tx_op ops s))) \<le> 8)
   \<and> (buffered_rcv s = 8 \<longrightarrow> isr_receive s = s\<lparr>RI := False\<rparr>)
   \<and> (buffered_tr s = 8 \<longrightarrow> tr_put b s = s)
   \<and> (buffered_rcv s = 0 \<longrightarrow> UART_read s = (0, s))
   \<and> (buffered_tr s = 0 \<longrightarrow> isr_transmit s = s\<lparr>TI := False, tr_armed := False\<rparr>)"
proof -
  have "unat (buffered_rcv (snd (run_ops rx_op ops s))) \<le> 8" if "rx_inv s"
    using rx_run_refines [OF that, of ops] by (simp add: rx_inv_def)
  moreover have "unat (buffered_tr (snd (run_ops tx_op ops s))) \<le> 8" if "tx_inv s"
    using tx_run_refines [OF that, of ops] by (simp add: tx_inv_def)
  ultimately show ?thesis
    using rx_run_refines [of s ops] tx_run_refines [of s ops]
    by (simp add: isr_receive_full tr_put_full UART_read_empty isr_transmit_empty)
qed

definition uart_full :: uart where
  "uart_full = uart_init\<lparr>buffered_rcv := 8, buffered_tr := 8\<rparr>"

theorem ring_buffers_fifo_witness:
  "rx_inv uart_init \<and> tx_inv uart_init
   \<and> fst (run_ops rx_op [Enqueue 1, Enqueue 2, Dequeue, Dequeue, Dequeue] uart_init) = [1, 2, 0]
   \<and> fst (run_ops tx_op [Enqueue 1, Enqueue 2, Dequeue, Dequeue, Dequeue] uart_init) = [1, 2]
   \<and> buffered_rcv uart_full = 8 \<and> isr_receive uart_full = uart_full\<lparr>RI := False\<rparr>
   \<and> buffered_tr uart_full = 8 \<and> tr_put 5 uart_full = uart_full
   \<and> buffered_rcv uart_init = 0 \<and> UART_read uart_init = (0, uart_init)
   \<and> buffered_tr uart_init = 0
   \<and> isr_transmit uart_init = uart_init\<lparr>TI := False, tr_armed := False\<rparr>"
proof -
  have f: "buffered_rcv uart_full = 8" "buffered_tr uart_full = 8"
    by (simp_all add: uart_full_def)
  have z: "buffered_rcv uart_init = 0" "buffered_tr uart_init = 0"
    by (simp_all add: uart_init_def)
  show ?thesis
    using ring_buffers_fifo [of uart_init "[Enqueue 1, Enqueue 2, Dequeue, Dequeue, Dequeue]" 0]
      ring_buffers_fifo [of uart_full "[]" 5] f z uart_init_inv uart_init_queues
    by (simp add: fifo_enqueue_def fifo_dequeue_def)
qed

theorem ring_buffers_fifo_counterexample:
  "tx_inv uart_init \<and> buffered_tr uart_init = 0
   \<and> fst (run_ops tx_op [Dequeue] uart_init) = []
   \<and> fst (fifo_run [0] [Dequeue] (tx_queue uart_init)) = [0]"
  using uart_init_inv uart_init_queues
  by (simp add: fifo_dequeue_def) (simp add: uart_init_def UART_ISR_def isr_transmit_def)

section \<open>The slave frame: LIN_read_response\<close>

lemma isr_receive_count:
  "unat (buffered_rcv (isr_receive s)) \<le> Suc (unat (buffered_rcv s))"
  by (simp add: isr_receive_def Let_def byte_succ8)

lemma hw_event_count:
  "unat (buffered_rcv (hw_event e s)) \<le> Suc (unat (buffered_rcv s)) \<and> env (hw_event e s) = env s"
proof (cases e)
  case (RxByte b)
  then show ?thesis
    using isr_receive_count [of "s\<lparr>SBUF_in := b, RI := True\<rparr>"]
    by (simp add: UART_ISR_def Let_def)
next
  case TxDone
  then show ?thesis
    using isr_receive_count [of "s\<lparr>TI := True\<rparr>"]
    by (simp add: UART_ISR_def Let_def)
qed

lemma events_count:
  "unat (buffered_rcv (fold hw_event es s)) \<le> unat (buffered_rcv s) + length es
     \<and> env (fold hw_event es s) = env s"
proof (induction es arbitrary: s)
  case Nil
  then show ?case by simp
next
  case (Cons e es)
  from Cons.IH [of "hw_event e s"] hw_event_count [of e s]
  show ?case by (simp del: hw_event.simps)
qed

definition pending :: "uart \<Rightarrow> nat" where
  "pending s = unat (buffered_rcv s) + sum_list (map length (env s))"

lemma delay_pending: "pending (delay n s) \<le> pending s"
proof (cases "env s")
  case Nil
  then show ?thesis by (simp add: delay_def)
next
  case (Cons es rest)
  then show ?thesis
    using events_count [of es "s\<lparr>env := rest\<rparr>"] by (simp add: delay_def pending_def)
qed

lemma UART_read_pending:
  "buffered_rcv s \<noteq> 0 \<Longrightarrow> pending (snd (UART_read s)) < pending s"
  by (simp add: UART_read_def pending_def word_gt_0 byte_pred unat_gt_0)

text \<open>
  LIN_read_response (lines 167-180). \<open>dest\<close> is the memory behind the pointer, by
  offset. The first loop waits for a byte: \<open>wait_first_byte\<close> returns False where the
  code returns 0. The second loop empties the receive ring.
\<close>

function wait_first_byte :: "nat \<Rightarrow> uart \<Rightarrow> bool \<times> uart" where
  "wait_first_byte i s =
     (if i < 5
      then (let s1 = delay 2 s
            in if buffered_rcv s1 \<noteq> 0 then (True, s1)
               else if i = 4 then (False, s1)
               else wait_first_byte (i + 1) s1)
      else (True, s))"
  by pat_completeness auto
termination
  by (relation "measure (\<lambda>(i, s). 5 - i)") auto

declare wait_first_byte.simps [simp del]

function drain_loop :: "byte \<Rightarrow> (nat \<Rightarrow> byte) \<Rightarrow> uart \<Rightarrow> byte \<times> (nat \<Rightarrow> byte) \<times> uart" where
  "drain_loop read_bytes dest s =
     (if buffered_rcv s \<noteq> 0
      then (let (received, s1) = UART_read s;
                (read_bytes1, dest1) =
                   (if read_bytes < 9 then (read_bytes + 1, dest(unat read_bytes := received))
                    else (read_bytes, dest));
                s2 = delay 1 s1
            in drain_loop read_bytes1 dest1 s2)
      else (read_bytes, dest, s))"
  by pat_completeness auto
termination
proof (relation "measure (\<lambda>(read_bytes, dest, s). pending s)")
  show "wf (measure (\<lambda>(read_bytes, dest, s). pending s))" by simp
next
  fix read_bytes :: byte and dest :: "nat \<Rightarrow> byte" and s x received s1 y read_bytes1 dest1 s2
  assume "buffered_rcv s \<noteq> 0" "x = UART_read s" "(received, s1) = x" "s2 = delay 1 s1"
  then have "pending s2 < pending s"
    using UART_read_pending [of s] delay_pending [of 1 s1] by (metis snd_conv le_less_trans)
  then show "((read_bytes1, dest1, s2), read_bytes, dest, s)
               \<in> measure (\<lambda>(read_bytes, dest, s). pending s)" by simp
qed

declare drain_loop.simps [simp del]

definition LIN_read_response :: "(nat \<Rightarrow> byte) \<Rightarrow> uart \<Rightarrow> byte \<times> (nat \<Rightarrow> byte) \<times> uart" where
  "LIN_read_response dest s =
     (case wait_first_byte 0 s of
        (False, s1) \<Rightarrow> (0, dest, s1)
      | (True, s1) \<Rightarrow> drain_loop 0 dest s1)"

text \<open>The bytes that the calls of UART_read in the second loop return, in order.\<close>

function drained :: "uart \<Rightarrow> byte list" where
  "drained s =
     (if buffered_rcv s \<noteq> 0
      then (let (received, s1) = UART_read s in received # drained (delay 1 s1))
      else [])"
  by pat_completeness auto
termination
proof (relation "measure pending")
  show "wf (measure pending)" by simp
next
  fix s x received s1
  assume "buffered_rcv s \<noteq> 0" "x = UART_read s" "(received, s1) = x"
  then have "pending (delay 1 s1) < pending s"
    using UART_read_pending [of s] delay_pending [of 1 s1] by (metis snd_conv le_less_trans)
  then show "(delay 1 s1, s) \<in> measure pending" by simp
qed

declare drained.simps [simp del]

definition response_bytes :: "uart \<Rightarrow> byte list" where
  "response_bytes s =
     (case wait_first_byte 0 s of (False, s1) \<Rightarrow> [] | (True, s1) \<Rightarrow> drained s1)"

text \<open>
  What LIN_read_response returns and leaves in \<open>dest\<close> when the bytes \<open>got\<close> come out
  of the receive ring during the call.
\<close>

definition stored :: "byte list \<Rightarrow> (nat \<Rightarrow> byte) \<Rightarrow> byte \<times> (nat \<Rightarrow> byte)" where
  "stored got dest =
     (of_nat (min 9 (length got)), (\<lambda>i. if i < min 9 (length got) then got ! i else dest i))"

lemma drain_loop_stop: "buffered_rcv s = 0 \<Longrightarrow> drain_loop rb dest s = (rb, dest, s)"
  by (subst drain_loop.simps) simp

lemma drain_loop_step:
  "buffered_rcv s \<noteq> 0 \<Longrightarrow>
   drain_loop rb dest s =
     drain_loop (if rb < 9 then rb + 1 else rb)
       (if rb < 9 then dest(unat rb := fst (UART_read s)) else dest)
       (delay 1 (snd (UART_read s)))"
  by (subst drain_loop.simps) (simp add: split_def Let_def del: One_nat_def)

lemma drained_stop: "buffered_rcv s = 0 \<Longrightarrow> drained s = []"
  by (subst drained.simps) simp

lemma drained_step:
  "buffered_rcv s \<noteq> 0 \<Longrightarrow>
   drained s = fst (UART_read s) # drained (delay 1 (snd (UART_read s)))"
  by (subst drained.simps) (simp add: split_def Let_def del: One_nat_def)

lemma byte_eq_9: "unat rb = 9 \<Longrightarrow> rb = (9::byte)"
proof -
  assume "unat rb = 9"
  then have "unat rb = unat (9::byte)" by simp
  then show ?thesis by (rule word_unat_eq_iff [THEN iffD2])
qed

lemma drain_loop_result:
  "unat rb \<le> 9 \<Longrightarrow>
   fst (drain_loop rb dest s) = of_nat (min 9 (unat rb + length (drained s)))
   \<and> fst (snd (drain_loop rb dest s)) =
      (\<lambda>i. if unat rb \<le> i \<and> i < min 9 (unat rb + length (drained s))
           then drained s ! (i - unat rb) else dest i)
   \<and> buffered_rcv (snd (snd (drain_loop rb dest s))) = 0"
proof (induction "pending s" arbitrary: rb dest s rule: less_induct)
  case less
  show ?case
  proof (cases "buffered_rcv s = 0")
    case True
    then show ?thesis using less.prems
      by (auto simp: drain_loop_stop drained_stop fun_eq_iff)
  next
    case False
    let ?s2 = "delay 1 (snd (UART_read s))"
    let ?r = "fst (UART_read s)"
    have lt: "pending ?s2 < pending s"
      using UART_read_pending [OF False] delay_pending [of 1 "snd (UART_read s)"] by simp
    note st = drain_loop_step [OF False] drained_step [OF False]
    show ?thesis
    proof (cases "rb < 9")
      case True
      then have u: "unat (rb + 1) = Suc (unat rb)" by (rule unat_byte_succ)
      from True have r9: "unat rb < 9" by (simp add: word_less_nat_alt)
      have p: "unat (rb + 1) \<le> 9" using u r9 by simp
      note ih = less.hyps [OF lt p, of "dest(unat rb := ?r)"]
      have f: "(\<lambda>i. if unat (rb + 1) \<le> i \<and> i < min 9 (unat (rb + 1) + length (drained ?s2))
                 then drained ?s2 ! (i - unat (rb + 1)) else (dest(unat rb := ?r)) i)
            = (\<lambda>i. if unat rb \<le> i \<and> i < min 9 (unat rb + length (?r # drained ?s2))
                 then (?r # drained ?s2) ! (i - unat rb) else dest i)"
      proof
        fix i
        show "(if unat (rb + 1) \<le> i \<and> i < min 9 (unat (rb + 1) + length (drained ?s2))
                 then drained ?s2 ! (i - unat (rb + 1)) else (dest(unat rb := ?r)) i)
            = (if unat rb \<le> i \<and> i < min 9 (unat rb + length (?r # drained ?s2))
                 then (?r # drained ?s2) ! (i - unat rb) else dest i)"
          using r9 by (cases "i = unat rb") (auto simp: u nth_Cons')
      qed
      show ?thesis
        using ih True unfolding st f by (simp add: u)
    next
      case False
      then have r9: "unat rb = 9" using less.prems by (simp add: word_less_nat_alt)
      note ih = less.hyps [OF lt less.prems, of dest]
      show ?thesis
        using ih False unfolding st by (auto simp: r9 byte_eq_9 fun_eq_iff)
    qed
  qed
qed

lemma wait_first_byte_timeout:
  "wait_first_byte i s = (False, s1) \<Longrightarrow> buffered_rcv s1 = 0"
proof (induction i s rule: wait_first_byte.induct)
  case (1 i s)
  show ?case
  proof (cases "i < 5 \<and> buffered_rcv (delay 2 s) = 0 \<and> i \<noteq> 4")
    case True
    then have "wait_first_byte i s = wait_first_byte (i + 1) (delay 2 s)"
      by (subst wait_first_byte.simps) (simp add: Let_def)
    then show ?thesis using "1.IH" [of "delay 2 s"] True "1.prems" by simp
  next
    case False
    then show ?thesis using "1.prems"
      by (subst (asm) wait_first_byte.simps) (auto simp: Let_def split: if_splits)
  qed
qed

lemma LIN_read_response_stored:
  "fst (LIN_read_response dest s) = fst (stored (response_bytes s) dest)
   \<and> fst (snd (LIN_read_response dest s)) = snd (stored (response_bytes s) dest)
   \<and> buffered_rcv (snd (snd (LIN_read_response dest s))) = 0"
proof (cases "wait_first_byte 0 s")
  case (Pair ok s1)
  show ?thesis
  proof (cases ok)
    case True
    then show ?thesis
      using Pair drain_loop_result [of 0 dest s1]
      by (auto simp: LIN_read_response_def response_bytes_def stored_def fun_eq_iff)
  next
    case False
    then have "buffered_rcv s1 = 0" using Pair wait_first_byte_timeout by simp
    then show ?thesis
      using Pair False by (simp add: LIN_read_response_def response_bytes_def stored_def)
  qed
qed

text \<open>
  A receive ring that fills with 8 bytes during the first wait and gets three more bytes
  while it is emptied: 11 bytes come out of it.
\<close>

definition uart_flood :: uart where
  "uart_flood = uart_init\<lparr>env := [[RxByte 1, RxByte 2, RxByte 3, RxByte 4, RxByte 5, RxByte 6,
      RxByte 7, RxByte 8], [RxByte 9], [RxByte 10], [RxByte 11]]\<rparr>"

lemma uart_flood_bytes: "response_bytes uart_flood = [1, 2, 3, 4, 5, 6, 7, 8, 9, 10, 11]"
  by code_simp

text \<open>
  C9. For every state of the receive ring, LIN_read_response returns a count between 0
  and 9 and writes to \<open>dest\<close> at the offsets below that count only, so never beyond
  offset 8: the first 9 bytes that come out of the ring are stored and counted. The ring
  is emptied all the same: bytes after the ninth are taken out of it and neither stored
  nor counted.
\<close>

theorem LIN_read_response_bounds:
  "unat (fst (LIN_read_response dest s)) \<le> 9
   \<and> unat (fst (LIN_read_response dest s)) = min 9 (length (response_bytes s))
   \<and> (\<forall>i. fst (snd (LIN_read_response dest s)) i
          = (if i < min 9 (length (response_bytes s)) then response_bytes s ! i else dest i))
   \<and> (\<forall>i\<ge>9. fst (snd (LIN_read_response dest s)) i = dest i)
   \<and> buffered_rcv (snd (snd (LIN_read_response dest s))) = 0"
proof -
  note r = LIN_read_response_stored [of dest s]
  have "unat (of_nat (min 9 (length (response_bytes s))) :: byte) = min 9 (length (response_bytes s))"
    by (simp add: unat_of_nat take_bit_nat_eq_self)
  then show ?thesis using r by (simp add: stored_def)
qed

theorem LIN_read_response_bounds_witness:
  "length (response_bytes uart_flood) = 11
   \<and> fst (LIN_read_response (\<lambda>i. 0xEE) uart_flood) = 9
   \<and> fst (snd (LIN_read_response (\<lambda>i. 0xEE) uart_flood)) 8 = 9
   \<and> (9::nat) \<ge> 9 \<and> fst (snd (LIN_read_response (\<lambda>i. 0xEE) uart_flood)) 9 = 0xEE
   \<and> buffered_rcv (snd (snd (LIN_read_response (\<lambda>i. 0xEE) uart_flood))) = 0"
proof -
  note t = LIN_read_response_bounds [of "\<lambda>i. 0xEE" uart_flood]
  have "unat (fst (LIN_read_response (\<lambda>i. 0xEE) uart_flood)) = 9"
    using t by (simp add: uart_flood_bytes)
  then have "fst (LIN_read_response (\<lambda>i. 0xEE) uart_flood) = 9" by (rule byte_eq_9)
  then show ?thesis using t by (simp add: uart_flood_bytes)
qed

section \<open>The power supervisor and the control loop\<close>

text \<open>
  The functions from LIN_wakeup on are modelled over the world they see. Its inputs are
  the future values of the three input pins, one for each read still to come, and for
  each call of LIN_read_response still to come the bytes that come out of the receive
  ring during it (\<open>response_bytes\<close> above; the empty list when the wait for the first
  byte times out). Its output is the \<open>trace\<close>: the pin writes, the calls of UART_send
  and the delays of these functions, in order. \<open>resp_buff\<close> is the global of line 66, as
  memory by offset.
\<close>

datatype action =
    Delay nat | Tx byte | TX_pin bool | EN_OV bool | LED_OV bool
  | UART_int bool | Enter_idle | Enter_PD

record sys =
  resp_buff :: "nat \<Rightarrow> byte"
  pow5v :: "nat \<Rightarrow> bool"
  pgood :: "nat \<Rightarrow> bool"
  plug :: "nat \<Rightarrow> bool"
  peer :: "nat \<Rightarrow> byte list"
  trace :: "action list"

definition WAKEUP_ERROR :: byte where "WAKEUP_ERROR = 1"
definition RESP_ERROR :: byte where "RESP_ERROR = 2"
definition STARTUP_ERROR :: byte where "STARTUP_ERROR = 3"
definition PGOOD_ERROR :: byte where "PGOOD_ERROR = 4"
definition LOW_BATT_ERR :: byte where "LOW_BATT_ERR = 5"

definition power_on_data :: "byte list" where
  "power_on_data = [0x02, 0x00, 0x00]"

definition emit :: "action list \<Rightarrow> sys \<Rightarrow> sys" where
  "emit as s = s\<lparr>trace := trace s @ as\<rparr>"

text \<open>Reading a pin takes the next value of its input. PLUG is the macro \<open>!(P3_2)\<close>.\<close>

definition read_POW_5V :: "sys \<Rightarrow> bool \<times> sys" where
  "read_POW_5V s = (pow5v s 0, s\<lparr>pow5v := (\<lambda>k. pow5v s (Suc k))\<rparr>)"

definition read_P_GOOD :: "sys \<Rightarrow> bool \<times> sys" where
  "read_P_GOOD s = (pgood s 0, s\<lparr>pgood := (\<lambda>k. pgood s (Suc k))\<rparr>)"

definition read_PLUG :: "sys \<Rightarrow> bool \<times> sys" where
  "read_PLUG s = (plug s 0, s\<lparr>plug := (\<lambda>k. plug s (Suc k))\<rparr>)"

text \<open>
  The serial link seen from the supervisor. \<open>sup_delay\<close> is delay; \<open>sup_send_request\<close>
  and \<open>sup_send_data\<close> record the bytes that LIN_send_request and LIN_send_data hand to
  UART_send (lemmas \<open>LIN_send_request_def\<close>, \<open>send_loop_eq\<close>); \<open>sup_read_response\<close> is
  LIN_read_response on \<open>resp_buff\<close> (lemma \<open>LIN_read_response_stored\<close>).
\<close>

definition sup_delay :: "nat \<Rightarrow> sys \<Rightarrow> sys" where
  "sup_delay time_ms s = emit [Delay time_ms] s"

definition sup_send_request :: "byte \<Rightarrow> sys \<Rightarrow> byte \<times> sys" where
  "sup_send_request ID s = (ID_word_of ID, emit [Tx 0x00, Tx 0x55, Tx (ID_word_of ID)] s)"

definition sup_send_data :: "byte list \<Rightarrow> byte \<Rightarrow> byte \<Rightarrow> sys \<Rightarrow> sys" where
  "sup_send_data data len ID_word s =
     (let d = take (unat len) data;
          checksum = fold_checksum (ucast ID_word + sum_list (map ucast d))
      in emit (map Tx d @ [Tx (ucast (checksum AND 0xFF))]) s)"

definition sup_read_response :: "sys \<Rightarrow> byte \<times> sys" where
  "sup_read_response s =
     (let (n, dest) = stored (peer s 0) (resp_buff s)
      in (n, s\<lparr>resp_buff := dest, peer := (\<lambda>k. peer s (Suc k))\<rparr>))"

text \<open>LIN_wakeup (lines 132-139).\<close>

definition LIN_wakeup :: "sys \<Rightarrow> sys" where
  "LIN_wakeup s =
     emit [TX_pin True, Delay 10, TX_pin False, Delay 1, TX_pin True, Delay 105] s"

text \<open>is_power_good (lines 182-190).\<close>

function pg_loop :: "nat \<Rightarrow> byte \<Rightarrow> sys \<Rightarrow> bool \<times> sys" where
  "pg_loop i undervoltages s =
     (if i < 10
      then (let (good, s1) = read_P_GOOD s;
                undervoltages1 = undervoltages + (if \<not> good then 1 else 0)
            in if undervoltages1 \<ge> 5 then (False, s1)
               else pg_loop (i + 1) undervoltages1 (sup_delay 10 s1))
      else (True, s))"
  by pat_completeness auto
termination
  by (relation "measure (\<lambda>(i, u, s). 10 - i)") auto

declare pg_loop.simps [simp del]

definition is_power_good :: "sys \<Rightarrow> bool \<times> sys" where
  "is_power_good s = pg_loop 0 0 s"

text \<open>anything_plugged (lines 192-197).\<close>

definition anything_plugged :: "sys \<Rightarrow> bool \<times> sys" where
  "anything_plugged s =
     (let (p, s1) = read_PLUG s
      in if \<not> p then (False, s1)
         else (let s2 = sup_delay 20 s1; (p2, s3) = read_PLUG s2
               in if \<not> p2 then (False, s3) else (True, s3)))"

text \<open>
  start_inverter (lines 199-230). \<open>wake_loop\<close> is the first loop and returns False where
  the code returns WAKEUP_ERROR; \<open>start_polls\<close> is the loop over \<open>j\<close> and returns
  whether the code has returned 0, with the two flags; \<open>start_rounds\<close> is the loop over
  \<open>i\<close>, whose bound in the code is 10.
\<close>

function wake_loop :: "nat \<Rightarrow> sys \<Rightarrow> bool \<times> sys" where
  "wake_loop i s =
     (if i < 3
      then (let (p, s1) = read_POW_5V s
            in if \<not> p
               then (let s2 = LIN_wakeup s1
                     in if i = 2 then (False, s2) else wake_loop (i + 1) s2)
               else (True, s1))
      else (True, s))"
  by pat_completeness auto
termination
  by (relation "measure (\<lambda>(i, s). 3 - i)") auto

declare wake_loop.simps [simp del]

function start_polls :: "nat \<Rightarrow> bool \<Rightarrow> bool \<Rightarrow> sys \<Rightarrow> (bool \<times> bool \<times> bool) \<times> sys" where
  "start_polls j no_resp PGOOD_fail s =
     (if j < 10
      then (let s1 = sup_delay 100 s;
                (ID_word, s2) = sup_send_request 0x3B s1;
                (read, s3) = sup_read_response s2;
                no_resp1 = (if read > 0 then False else no_resp)
            in if read < 3 then start_polls (j + 1) no_resp1 PGOOD_fail s3
               else (let status = resp_buff s3 1
                     in if status AND 0x01 = 0 then start_polls (j + 1) no_resp1 PGOOD_fail s3
                        else if status AND 0x02 = 0 then start_polls (j + 1) no_resp1 True s3
                        else ((True, no_resp1, PGOOD_fail), s3)))
      else ((False, no_resp, PGOOD_fail), s))"
  by pat_completeness auto
termination
  by (relation "measure (\<lambda>(j, n, p, s). 10 - j)") auto

declare start_polls.simps [simp del]

function start_rounds :: "nat \<Rightarrow> sys \<Rightarrow> byte \<times> sys" where
  "start_rounds i s =
     (if i < 10
      then (let (ID_word, s1) = sup_send_request 0x3A s;
                s2 = sup_send_data power_on_data 2 ID_word s1;
                ((started, no_resp, PGOOD_fail), s3) = start_polls 0 True False s2
            in if started then (0, s3)
               else if i = 2
               then (if no_resp then (RESP_ERROR, s3)
                     else (if PGOOD_fail then PGOOD_ERROR else STARTUP_ERROR, s3))
               else start_rounds (i + 1) (sup_delay 250 s3))
      else (STARTUP_ERROR, s))"
  by pat_completeness auto
termination
  by (relation "measure (\<lambda>(i, s). 10 - i)") auto

declare start_rounds.simps [simp del]

definition start_inverter :: "sys \<Rightarrow> byte \<times> sys" where
  "start_inverter s =
     (case wake_loop 0 s of
        (False, s1) \<Rightarrow> (WAKEUP_ERROR, s1)
      | (True, s1) \<Rightarrow> start_rounds 0 s1)"

text \<open>
  stop_inverter (lines 232-259). \<open>power_cut\<close> is the loop over \<open>k\<close> and returns True where
  the code returns. \<open>stop_polls\<close> is the loop over \<open>j\<close>; it ends by a return of the
  function, by the \<open>break\<close> of line 251 or by running out. \<open>stop_attempts\<close> is the loop
  over \<open>i\<close> and returns True where the function has returned: after the \<open>break\<close> the
  code has set \<open>i = 3\<close>, runs the delay of line 253 and the increment, and the loop ends.
  \<open>final_wait\<close> is the last loop.
\<close>

function power_cut :: "nat \<Rightarrow> sys \<Rightarrow> bool \<times> sys" where
  "power_cut k s =
     (if k < 10
      then (let s1 = emit [EN_OV True] s;
                s2 = sup_delay 100 s1;
                s3 = emit [EN_OV False] s2;
                (p, s4) = read_POW_5V s3
            in if \<not> p then (True, s4) else power_cut (k + 1) s4)
      else (False, s))"
  by pat_completeness auto
termination
  by (relation "measure (\<lambda>(k, s). 10 - k)") auto

declare power_cut.simps [simp del]

datatype loop_end = Return | Break | Exhausted

function stop_polls :: "nat \<Rightarrow> bool \<Rightarrow> sys \<Rightarrow> loop_end \<times> sys" where
  "stop_polls j cut_power s =
     (if j < 10
      then (let s1 = sup_delay 100 s;
                (ID_word, s2) = sup_send_request 0x3B s1;
                (read, s3) = sup_read_response s2
            in if read < 3 then stop_polls (j + 1) cut_power s3
               else if resp_buff s3 3 \<noteq> 0xFF then stop_polls (j + 1) cut_power s3
               else if resp_buff s3 1 AND 0x01 \<noteq> 0 then stop_polls (j + 1) cut_power s3
               else if \<not> cut_power then (Return, s3)
               else (case power_cut 0 s3 of
                       (True, s4) \<Rightarrow> (Return, s4)
                     | (False, s4) \<Rightarrow> (Break, s4)))
      else (Exhausted, s))"
  by pat_completeness auto
termination
  by (relation "measure (\<lambda>(j, c, s). 10 - j)") auto

declare stop_polls.simps [simp del]

function stop_attempts :: "nat \<Rightarrow> bool \<Rightarrow> sys \<Rightarrow> bool \<times> sys" where
  "stop_attempts i cut_power s =
     (if i < 3
      then (let (ID_word, s1) = sup_send_request 0x3A s;
                s2 = sup_send_data (drop 1 power_on_data) 2 ID_word s1;
                (e, s3) = stop_polls 0 cut_power s2
            in case e of
                 Return \<Rightarrow> (True, s3)
               | Break \<Rightarrow> stop_attempts (3 + 1) cut_power (sup_delay 250 s3)
               | Exhausted \<Rightarrow> stop_attempts (i + 1) cut_power (sup_delay 250 s3))
      else (False, s))"
  by pat_completeness auto
termination
  by (relation "measure (\<lambda>(i, c, s). 5 - i)") auto

declare stop_attempts.simps [simp del]

function final_wait :: "nat \<Rightarrow> sys \<Rightarrow> sys" where
  "final_wait i s =
     (if i < 10
      then (let s1 = sup_delay 1000 s; (p, s2) = read_POW_5V s1
            in if \<not> p then s2 else final_wait (i + 1) s2)
      else s)"
  by pat_completeness auto
termination
  by (relation "measure (\<lambda>(i, s). 10 - i)") auto

declare final_wait.simps [simp del]

definition stop_inverter :: "bool \<Rightarrow> sys \<Rightarrow> sys" where
  "stop_inverter cut_power s =
     (let (p, s0) = read_POW_5V s
      in if \<not> p then s0
         else (case stop_attempts 0 cut_power s0 of
                 (True, s1) \<Rightarrow> s1
               | (False, s1) \<Rightarrow> final_wait 0 s1))"

text \<open>enough_power_drawn (lines 261-273).\<close>

function power_polls :: "nat \<Rightarrow> byte \<Rightarrow> sys \<Rightarrow> bool \<times> sys" where
  "power_polls i power_sum s =
     (if i < 10
      then (let (ID_word, s1) = sup_send_request 0x3B s;
                s2 = sup_delay 20 s1;
                (read, s3) = sup_read_response s2
            in if read < 3 \<or> resp_buff s3 1 AND 0x01 = 0 \<or> resp_buff s3 3 \<noteq> 0xFF
               then power_polls (i + 1) power_sum s3
               else (let power_sum1 = power_sum + (if resp_buff s3 0 > 0 then 1 else 0)
                     in if power_sum1 \<ge> 5 then (True, s3)
                        else power_polls (i + 1) power_sum1 s3))
      else (False, s))"
  by pat_completeness auto
termination
  by (relation "measure (\<lambda>(i, p, s). 10 - i)") auto

declare power_polls.simps [simp del]

definition enough_power_drawn :: "sys \<Rightarrow> bool \<times> sys" where
  "enough_power_drawn s = power_polls 0 0 s"

text \<open>wait_if_plugged (lines 275-280) and show_error (lines 282-291).\<close>

function wait_loop :: "byte \<Rightarrow> byte \<Rightarrow> sys \<Rightarrow> sys" where
  "wait_loop millis_100 i s =
     (if i < millis_100
      then (let (p, s1) = anything_plugged s
            in if p then wait_loop millis_100 (i + 1) (sup_delay 80 s1) else s1)
      else s)"
  by pat_completeness auto
termination
  by (relation "measure (\<lambda>(m, i, s). unat m - unat i)")
     (auto simp: unat_byte_succ word_less_nat_alt)

declare wait_loop.simps [simp del]

definition wait_if_plugged :: "byte \<Rightarrow> sys \<Rightarrow> sys" where
  "wait_if_plugged millis_100 s = wait_loop millis_100 0 s"

function blink_loop :: "nat \<Rightarrow> byte \<Rightarrow> sys \<Rightarrow> sys" where
  "blink_loop i err_code s =
     (if i < 3
      then (let s1 = emit [LED_OV True] s;
                s2 = sup_delay (if err_code AND 0x04 \<noteq> 0 then 500 else 250) s1;
                err_code1 = push_bit 1 err_code;
                s3 = emit [LED_OV False] s2;
                s4 = sup_delay 350 s3
            in blink_loop (i + 1) err_code1 s4)
      else s)"
  by pat_completeness auto
termination
  by (relation "measure (\<lambda>(i, e, s). 3 - i)") auto

declare blink_loop.simps [simp del]

definition show_error :: "byte \<Rightarrow> sys \<Rightarrow> sys" where
  "show_error err_code s =
     (let (p, s1) = read_POW_5V s;
          s2 = (if \<not> p then LIN_wakeup s1 else s1)
      in blink_loop 0 err_code s2)"

text \<open>
  main (lines 295-365). \<open>ctrl\<close> holds its four local variables. \<open>main_iteration\<close> is
  the body of the endless loop; it ends in \<open>Shutdown\<close> where the code enters power-down
  and loops forever (lines 318-319). \<open>no_load_check\<close> is the block of lines 337-350.
\<close>

record ctrl =
  no_load_counter :: byte
  prev_was_load :: bool
  low_batt_counter :: byte
  drawn_power_detect :: bool

datatype outcome = Running ctrl sys | Shutdown ctrl sys

definition no_load_check :: "ctrl \<Rightarrow> sys \<Rightarrow> ctrl \<times> sys" where
  "no_load_check c s =
     (let (c2, s4) =
        (if no_load_counter c \<ge> 60
         then (c, wait_if_plugged 133 (stop_inverter True s))
         else (let s1 = stop_inverter False s;
                   c1 = c\<lparr>no_load_counter := no_load_counter c + 1\<rparr>;
                   s2 = wait_if_plugged 18 s1;
                   s3 = (if no_load_counter c1 \<ge> 20
                         then wait_if_plugged 30 (LIN_wakeup s2) else s2)
               in (c1, s3)))
      in (c2\<lparr>prev_was_load := False\<rparr>, s4))"

definition main_iteration :: "ctrl \<Rightarrow> sys \<Rightarrow> outcome" where
  "main_iteration c s =
     (let (good, s1) = is_power_good s
      in if \<not> good
         then (let s2 = stop_inverter True s1;
                   s3 = sup_delay 250 s2;
                   s4 = show_error LOW_BATT_ERR s3;
                   c1 = c\<lparr>low_batt_counter := low_batt_counter c + 1\<rparr>
               in if low_batt_counter c1 \<ge> 5 then Shutdown c1 (emit [Enter_PD] s4)
                  else Running c1 (wait_if_plugged 30 s4))
         else (let c1 = c\<lparr>low_batt_counter := 0\<rparr>;
                   (plugged, s2) = anything_plugged s1
               in if plugged
                  then (let (status, s3) = start_inverter s2
                        in if status \<noteq> 0
                           then (let s4 = stop_inverter True s3;
                                     s5 = show_error status s4
                                 in Running c1
                                      (wait_if_plugged (if status = PGOOD_ERROR then 150 else 15) s5))
                           else if drawn_power_detect c1
                           then (let s4 = (if \<not> prev_was_load c1 then sup_delay 200 s3 else s3);
                                     (enough, s5) = enough_power_drawn s4
                                 in if \<not> enough
                                    then (let (c2, s6) = no_load_check c1 s5 in Running c2 s6)
                                    else if no_load_counter c1 > 0
                                    then (if prev_was_load c1
                                          then Running (c1\<lparr>no_load_counter := no_load_counter c1 - 1\<rparr>) s5
                                          else Running (c1\<lparr>prev_was_load := True\<rparr>) s5)
                                    else Running c1 s5)
                           else Running c1 s3)
                  else (let s3 = stop_inverter True s2
                        in Running c1 (emit [UART_int False, Enter_idle, UART_int True] s3))))"

text \<open>
  The loop \<open>for(;;)\<close> never returns; \<open>main_loop n\<close> runs its first \<open>n\<close> iterations, or
  fewer when one of them ends in power-down.
\<close>

fun main_loop :: "nat \<Rightarrow> ctrl \<Rightarrow> sys \<Rightarrow> outcome" where
  "main_loop 0 c s = Running c s"
| "main_loop (Suc n) c s =
     (case main_iteration c s of
        Shutdown c1 s1 \<Rightarrow> Shutdown c1 s1
      | Running c1 s1 \<Rightarrow> main_loop n c1 s1)"

definition ctrl_init :: "bool \<Rightarrow> ctrl" where
  "ctrl_init plugged = \<lparr> no_load_counter = 0, prev_was_load = False, low_batt_counter = 0,
     drawn_power_detect = plugged \<rparr>"

section \<open>is_power_good\<close>

definition shift :: "nat \<Rightarrow> (nat \<Rightarrow> 'a) \<Rightarrow> nat \<Rightarrow> 'a" where
  "shift m f = (\<lambda>k. f (k + m))"

text \<open>How many of the next \<open>n\<close> samples of the power-good input read not-good.\<close>

definition not_good :: "(nat \<Rightarrow> bool) \<Rightarrow> nat \<Rightarrow> nat" where
  "not_good f n = length (filter (\<lambda>k. \<not> f k) [0..<n])"

lemma shift_0 [simp]: "shift 0 f = f"
  by (simp add: shift_def)

lemma shift_Suc: "shift m (\<lambda>k. f (Suc k)) = shift (Suc m) f"
  by (simp add: shift_def)

lemma not_good_0 [simp]: "not_good f 0 = 0"
  by (simp add: not_good_def)

lemma not_good_first:
  "not_good f (Suc n) = (if f 0 then 0 else 1) + not_good (\<lambda>k. f (Suc k)) n"
proof -
  have "[0..<Suc n] = 0 # map Suc [0..<n]"
    by (simp add: upt_conv_Cons map_Suc_upt del: upt_Suc)
  then show ?thesis
    by (simp add: not_good_def filter_map comp_def del: upt_Suc)
qed

lemma not_good_last: "not_good f (Suc n) = not_good f n + (if f n then 0 else 1)"
  by (simp add: not_good_def)

lemma not_good_le: "not_good f n \<le> n"
  by (simp add: not_good_def) (metis diff_zero length_filter_le length_upt)

lemma pg_loop_stop: "\<not> i < 10 \<Longrightarrow> pg_loop i u s = (True, s)"
  by (subst pg_loop.simps) simp

lemma pg_loop_bad:
  "i < 10 \<Longrightarrow> u + (if pgood s 0 then 0 else 1) \<ge> 5 \<Longrightarrow>
   pg_loop i u s = (False, snd (read_P_GOOD s))"
  by (subst pg_loop.simps) (auto simp: read_P_GOOD_def Let_def)

lemma pg_loop_next:
  "i < 10 \<Longrightarrow> \<not> u + (if pgood s 0 then 0 else 1) \<ge> 5 \<Longrightarrow>
   pg_loop i u s = pg_loop (i + 1) (u + (if pgood s 0 then 0 else 1))
                     (sup_delay 10 (snd (read_P_GOOD s)))"
  by (subst pg_loop.simps) (auto simp: read_P_GOOD_def Let_def)

lemma pg_loop_result:
  "10 - i = n \<Longrightarrow> i \<le> 10 \<Longrightarrow> unat u < 5 \<Longrightarrow>
   (fst (pg_loop i u s) \<longleftrightarrow> unat u + not_good (pgood s) n < 5)
   \<and> (fst (pg_loop i u s) \<longrightarrow>
        pgood (snd (pg_loop i u s)) = shift n (pgood s)
      \<and> trace (snd (pg_loop i u s)) = trace s @ replicate n (Delay 10))
   \<and> (\<not> fst (pg_loop i u s) \<longrightarrow>
        (\<exists>m. 1 \<le> m \<and> m \<le> n \<and> unat u + not_good (pgood s) (m - 1) = 4
           \<and> \<not> pgood s (m - 1)
           \<and> pgood (snd (pg_loop i u s)) = shift m (pgood s)
           \<and> trace (snd (pg_loop i u s)) = trace s @ replicate (m - 1) (Delay 10)))"
proof (induction n arbitrary: i u s)
  case 0
  then have "\<not> i < 10" by simp
  then show ?case using "0.prems" by (simp add: pg_loop_stop)
next
  case (Suc n)
  then have i: "i < 10" by simp
  let ?s1 = "snd (read_P_GOOD s)"
  let ?u1 = "u + (if pgood s 0 then 0 else 1)"
  have u1: "unat ?u1 = unat u + (if pgood s 0 then 0 else 1)"
    using Suc.prems(3) by (simp add: unat_word_ariths)
  show ?case
  proof (cases "?u1 \<ge> 5")
    case True
    then have ge: "unat u + (if pgood s 0 then 0 else 1) \<ge> 5"
      using u1 by (simp add: word_le_nat_alt)
    then have bad: "\<not> pgood s 0" "unat u = 4" using Suc.prems(3) by (auto split: if_splits)
    note r = pg_loop_bad [OF i True]
    have "\<exists>m. 1 \<le> m \<and> m \<le> Suc n \<and> unat u + not_good (pgood s) (m - 1) = 4
         \<and> \<not> pgood s (m - 1) \<and> pgood ?s1 = shift m (pgood s)
         \<and> trace ?s1 = trace s @ replicate (m - 1) (Delay 10)"
      using bad by (intro exI [of _ 1]) (simp add: read_P_GOOD_def shift_def)
    then show ?thesis using bad by (simp add: r not_good_first)
  next
    case False
    then have lt: "unat ?u1 < 5" by (simp add: word_le_nat_alt)
    let ?s2 = "sup_delay 10 ?s1"
    note r = pg_loop_next [OF i False]
    have s2: "pgood ?s2 = (\<lambda>k. pgood s (Suc k))" "trace ?s2 = trace s @ [Delay 10]"
      by (simp_all add: read_P_GOOD_def sup_delay_def emit_def)
    have n': "10 - (i + 1) = n" "i + 1 \<le> 10" using Suc.prems by simp_all
    note ih = Suc.IH [OF n' lt, of ?s2]
    have a: "fst (pg_loop i u s) \<longleftrightarrow> unat u + not_good (pgood s) (Suc n) < 5"
      using ih by (simp add: r not_good_first s2 u1)
    have b: "pgood (snd (pg_loop i u s)) = shift (Suc n) (pgood s)
           \<and> trace (snd (pg_loop i u s)) = trace s @ replicate (Suc n) (Delay 10)"
      if "fst (pg_loop i u s)"
      using ih that by (simp add: r s2 shift_Suc replicate_append_same)
    have c: "\<exists>m. 1 \<le> m \<and> m \<le> Suc n \<and> unat u + not_good (pgood s) (m - 1) = 4
         \<and> \<not> pgood s (m - 1)
         \<and> pgood (snd (pg_loop i u s)) = shift m (pgood s)
         \<and> trace (snd (pg_loop i u s)) = trace s @ replicate (m - 1) (Delay 10)"
      if "\<not> fst (pg_loop i u s)"
    proof -
      from ih that obtain m where m: "1 \<le> m" "m \<le> n"
        "unat ?u1 + not_good (pgood ?s2) (m - 1) = 4" "\<not> pgood ?s2 (m - 1)"
        "pgood (snd (pg_loop (i + 1) ?u1 ?s2)) = shift m (pgood ?s2)"
        "trace (snd (pg_loop (i + 1) ?u1 ?s2)) = trace ?s2 @ replicate (m - 1) (Delay 10)"
        unfolding r by blast
      obtain m' where m': "m = Suc m'" using m(1) by (cases m) simp_all
      have "unat u + not_good (pgood s) (Suc m - 1) = 4"
        using m(3) by (simp add: m' not_good_first s2 u1)
      moreover have "\<not> pgood s (Suc m - 1)" using m(4) by (simp add: m' s2)
      moreover have "pgood (snd (pg_loop i u s)) = shift (Suc m) (pgood s)"
        using m(5) by (simp add: r s2 shift_Suc)
      moreover have "trace (snd (pg_loop i u s)) = trace s @ replicate (Suc m - 1) (Delay 10)"
        using m(6) by (simp add: r s2 m' replicate_append_same)
      ultimately show ?thesis using m(1,2) by (intro exI [of _ "Suc m"]) simp
    qed
    show ?thesis using a b c by blast
  qed
qed

definition sys_init :: sys where
  "sys_init = \<lparr> resp_buff = (\<lambda>i. 0), pow5v = (\<lambda>k. True), pgood = (\<lambda>k. True),
     plug = (\<lambda>k. True), peer = (\<lambda>k. []), trace = [] \<rparr>"

text \<open>
  C8. For every sequence of samples of the battery power-good input, is_power_good
  returns false iff at least 5 of the 10 samples it could take read not-good. It then
  returns at the sample that is the fifth not-good one, having waited 10 ms after each
  sample before it. It returns true, after all 10 samples and the 10 ms wait after each,
  when 4 or fewer read not-good.
\<close>

theorem is_power_good_debounce:
  "(fst (is_power_good s) \<longleftrightarrow> not_good (pgood s) 10 \<le> 4)
   \<and> (fst (is_power_good s) \<longrightarrow>
        pgood (snd (is_power_good s)) = shift 10 (pgood s)
      \<and> trace (snd (is_power_good s)) = trace s @ replicate 10 (Delay 10))
   \<and> (\<not> fst (is_power_good s) \<longrightarrow>
        (\<exists>m. 1 \<le> m \<and> m \<le> 10 \<and> not_good (pgood s) (m - 1) = 4 \<and> \<not> pgood s (m - 1)
           \<and> pgood (snd (is_power_good s)) = shift m (pgood s)
           \<and> trace (snd (is_power_good s)) = trace s @ replicate (m - 1) (Delay 10)))"
proof -
  have "(not_good (pgood s) 10 < 5) = (not_good (pgood s) 10 \<le> 4)" by arith
  then show ?thesis
    using pg_loop_result [of 0 10 0 s] unfolding is_power_good_def by simp
qed

theorem is_power_good_debounce_witness:
  "not_good (pgood sys_init) 10 \<le> 4 \<and> fst (is_power_good sys_init)
   \<and> trace (snd (is_power_good sys_init)) = replicate 10 (Delay 10)
   \<and> \<not> not_good (pgood (sys_init\<lparr>pgood := (\<lambda>k. k = 7)\<rparr>)) 10 \<le> 4
   \<and> \<not> fst (is_power_good (sys_init\<lparr>pgood := (\<lambda>k. k = 7)\<rparr>))
   \<and> trace (snd (is_power_good (sys_init\<lparr>pgood := (\<lambda>k. k = 7)\<rparr>))) = replicate 4 (Delay 10)"
proof -
  have g: "not_good (pgood sys_init) 10 \<le> 4"
    by (simp add: sys_init_def not_good_def)
  have b: "\<not> not_good (pgood (sys_init\<lparr>pgood := (\<lambda>k. k = 7)\<rparr>)) 10 \<le> 4"
    by (simp add: sys_init_def not_good_def upt_rec)
  have t: "trace (snd (is_power_good (sys_init\<lparr>pgood := (\<lambda>k. k = 7)\<rparr>))) = replicate 4 (Delay 10)"
    by code_simp
  have i: "trace sys_init = []" by (simp add: sys_init_def)
  show ?thesis
    using is_power_good_debounce [of sys_init] g i
      is_power_good_debounce [of "sys_init\<lparr>pgood := (\<lambda>k. k = 7)\<rparr>"] b t
    by simp
qed

section \<open>start_inverter\<close>

text \<open>
  A status response as start_inverter classifies it: accepted when it has at least 3
  bytes and bits 0 (acknowledged) and 1 (power-good) of byte 1 are set.
\<close>

definition accepted :: "byte list \<Rightarrow> bool" where
  "accepted r \<longleftrightarrow> 3 \<le> length r \<and> bit (r ! 1) 0 \<and> bit (r ! 1) 1"

definition ack_no_pg :: "byte list \<Rightarrow> bool" where
  "ack_no_pg r \<longleftrightarrow> 3 \<le> length r \<and> bit (r ! 1) 0 \<and> \<not> bit (r ! 1) 1"

text \<open>One status poll: lines 211-213, 238-240.\<close>

definition poll :: "sys \<Rightarrow> sys" where
  "poll s = snd (sup_read_response (snd (sup_send_request 0x3B (sup_delay 100 s))))"

lemmas sup_defs = sup_delay_def sup_send_request_def sup_send_data_def sup_read_response_def
  emit_def LIN_wakeup_def read_POW_5V_def read_PLUG_def read_P_GOOD_def

lemma unat_stored_count: "unat (fst (stored r d)) = min 9 (length r)"
  by (simp add: stored_def unat_of_nat take_bit_nat_eq_self)

lemma stored_count_lt3: "fst (stored r d) < 3 \<longleftrightarrow> length r < 3"
  by (auto simp: word_less_nat_alt unat_stored_count)

lemma stored_count_pos: "fst (stored r d) > 0 \<longleftrightarrow> r \<noteq> []"
  by (auto simp: word_less_nat_alt unat_stored_count)

lemma stored_byte: "i < 9 \<Longrightarrow> i < length r \<Longrightarrow> snd (stored r d) i = r ! i"
  by (simp add: stored_def)

lemma stored_keep: "length r \<le> i \<Longrightarrow> snd (stored r d) i = d i"
  by (simp add: stored_def)

lemma byte_and_1: "(x::byte) AND 1 = 0 \<longleftrightarrow> \<not> bit x 0"
  by (simp add: byte_bit_0)

lemma byte_and_2: "(x::byte) AND 2 = 0 \<longleftrightarrow> \<not> bit x 1"
proof -
  have "x AND 2 = push_bit 1 (of_bool (bit x 1))"
    by (rule bit_word_eqI) (auto simp: bit_simps)
  then show ?thesis by (cases "bit x 1") simp_all
qed

lemma poll_fields [simp]:
  "peer (poll s) = (\<lambda>k. peer s (Suc k))" "pow5v (poll s) = pow5v s"
  "pgood (poll s) = pgood s" "plug (poll s) = plug s"
  "resp_buff (poll s) = snd (stored (peer s 0) (resp_buff s))"
  "trace (poll s) = trace s @ [Delay 100, Tx 0x00, Tx 0x55, Tx (ID_word_of 0x3B)]"
  by (simp_all add: poll_def sup_defs split_def Let_def)

lemma start_polls_stop:
  "\<not> j < 10 \<Longrightarrow> start_polls j no_resp PGOOD_fail s = ((False, no_resp, PGOOD_fail), s)"
  by (subst start_polls.simps) simp

lemma start_polls_step:
  "j < 10 \<Longrightarrow>
   start_polls j no_resp PGOOD_fail s =
     (if accepted (peer s 0) then ((True, False, PGOOD_fail), poll s)
      else start_polls (j + 1) (no_resp \<and> peer s 0 = [])
             (PGOOD_fail \<or> ack_no_pg (peer s 0)) (poll s))"
  by (subst start_polls.simps)
     (auto simp: poll_def sup_defs split_def Let_def stored_count_lt3 stored_count_pos
        stored_byte accepted_def ack_no_pg_def byte_and_1 byte_and_2 not_less)

lemma start_polls_result:
  "10 - j = n \<Longrightarrow>
   (fst (fst (start_polls j no_resp PGOOD_fail s)) \<longleftrightarrow> (\<exists>k<n. accepted (peer s k)))
   \<and> ((\<forall>k<n. \<not> accepted (peer s k)) \<longrightarrow>
        fst (start_polls j no_resp PGOOD_fail s)
          = (False, no_resp \<and> (\<forall>k<n. peer s k = []), PGOOD_fail \<or> (\<exists>k<n. ack_no_pg (peer s k)))
      \<and> peer (snd (start_polls j no_resp PGOOD_fail s)) = shift n (peer s)
      \<and> pow5v (snd (start_polls j no_resp PGOOD_fail s)) = pow5v s)"
proof (induction n arbitrary: j no_resp PGOOD_fail s)
  case 0
  then have "\<not> j < 10" by simp
  then show ?case by (simp add: start_polls_stop)
next
  case (Suc n)
  then have j: "j < 10" and n: "10 - (j + 1) = n" by simp_all
  note st = start_polls_step [OF j]
  show ?case
  proof (cases "accepted (peer s 0)")
    case True
    then show ?thesis by (auto simp: st)
  next
    case False
    have ex: "(\<exists>k<Suc n. P k) \<longleftrightarrow> P 0 \<or> (\<exists>k<n. P (Suc k))" for P
      by (metis less_Suc_eq_0_disj)
    have al: "(\<forall>k<Suc n. P k) \<longleftrightarrow> P 0 \<and> (\<forall>k<n. P (Suc k))" for P
      by (metis less_Suc_eq_0_disj)
    note ih = Suc.IH [OF n, of "no_resp \<and> peer s 0 = []" "PGOOD_fail \<or> ack_no_pg (peer s 0)" "poll s"]
    show ?thesis
      using ih False unfolding st by (simp add: ex al shift_Suc)
  qed
qed

lemma error_codes_nonzero [simp]:
  "RESP_ERROR \<noteq> 0" "PGOOD_ERROR \<noteq> 0" "STARTUP_ERROR \<noteq> 0" "WAKEUP_ERROR \<noteq> 0"
  "LOW_BATT_ERR \<noteq> 0"
  by (simp_all add: RESP_ERROR_def PGOOD_ERROR_def STARTUP_ERROR_def WAKEUP_ERROR_def
        LOW_BATT_ERR_def)

text \<open>The start command of lines 206-207.\<close>

definition start_command :: "sys \<Rightarrow> sys" where
  "start_command s =
     sup_send_data power_on_data 2 (fst (sup_send_request 0x3A s)) (snd (sup_send_request 0x3A s))"

lemma start_command_fields [simp]:
  "peer (start_command s) = peer s" "pow5v (start_command s) = pow5v s"
  "resp_buff (start_command s) = resp_buff s"
  by (simp_all add: start_command_def sup_defs Let_def)

lemma sup_delay_fields [simp]:
  "peer (sup_delay n s) = peer s" "pow5v (sup_delay n s) = pow5v s"
  "resp_buff (sup_delay n s) = resp_buff s" "pgood (sup_delay n s) = pgood s"
  "plug (sup_delay n s) = plug s" "trace (sup_delay n s) = trace s @ [Delay n]"
  by (simp_all add: sup_defs)

lemma start_rounds_step:
  "i < 10 \<Longrightarrow>
   start_rounds i s =
     (let r = start_polls 0 True False (start_command s)
      in if fst (fst r) then (0, snd r)
         else if i = 2
         then (if fst (snd (fst r)) then RESP_ERROR
               else if snd (snd (fst r)) then PGOOD_ERROR else STARTUP_ERROR, snd r)
         else start_rounds (i + 1) (sup_delay 250 (snd r)))"
  by (subst start_rounds.simps) (simp add: start_command_def split_def Let_def)

lemma ex_less_add10: "(\<exists>k<10 + (n::nat). P k) \<longleftrightarrow> (\<exists>k<10. P k) \<or> (\<exists>k<n. P (k + 10))"
proof
  assume "\<exists>k<10 + n. P k"
  then obtain k where k: "k < 10 + n" "P k" by blast
  show "(\<exists>k<10. P k) \<or> (\<exists>k<n. P (k + 10))"
  proof (cases "k < 10")
    case True
    then show ?thesis using k by blast
  next
    case False
    then have "k - 10 < n" "P ((k - 10) + 10)" using k by simp_all
    then show ?thesis by blast
  qed
next
  assume "(\<exists>k<10. P k) \<or> (\<exists>k<n. P (k + 10))"
  then show "\<exists>k<10 + n. P k"
    by (metis add.commute nat_add_left_cancel_less trans_less_add1)
qed

text \<open>How the code classifies a failed last round of 10 polls.\<close>

definition last_round_error :: "(nat \<Rightarrow> byte list) \<Rightarrow> byte" where
  "last_round_error p =
     (if \<forall>k<10. p k = [] then RESP_ERROR
      else if \<exists>k<10. ack_no_pg (p k) then PGOOD_ERROR else STARTUP_ERROR)"

lemma start_rounds_result:
  "2 - i = m \<Longrightarrow> i \<le> 2 \<Longrightarrow>
   (fst (start_rounds i s) = 0 \<longleftrightarrow> (\<exists>k<10 * Suc m. accepted (peer s k)))
   \<and> ((\<forall>k<10 * Suc m. \<not> accepted (peer s k)) \<longrightarrow>
        fst (start_rounds i s) = last_round_error (shift (10 * m) (peer s)))"
proof (induction m arbitrary: i s)
  case 0
  then have i: "i = 2" by simp
  note p = start_polls_result [of 0 10 True False "start_command s"]
  show ?case
    using p unfolding i
    by (subst (1 2) start_rounds_step) (auto simp: Let_def last_round_error_def)
next
  case (Suc m)
  then have i: "i < 10" "i \<noteq> 2" "2 - (i + 1) = m" "i + 1 \<le> 2" by simp_all
  note p = start_polls_result [of 0 10 True False "start_command s", simplified]
  let ?r = "start_polls 0 True False (start_command s)"
  show ?case
  proof (cases "\<exists>k<10. accepted (peer s k)")
    case True
    then have "\<exists>k<10 * Suc (Suc m). accepted (peer s k)"
      by (metis less_le_trans le_add1 mult_Suc_right)
    then show ?thesis using p True i by (subst (1 2) start_rounds_step) (auto simp: Let_def)
  next
    case False
    then have f: "\<not> fst (fst ?r)" "peer (snd ?r) = shift 10 (peer s)" using p by auto
    have st: "start_rounds i s = start_rounds (i + 1) (sup_delay 250 (snd ?r))"
      using f i by (subst start_rounds_step) (simp_all add: Let_def)
    note ih = Suc.IH [OF i(3,4), of "sup_delay 250 (snd ?r)"]
    have e: "(\<exists>k<10 * Suc (Suc m). accepted (peer s k))
               \<longleftrightarrow> (\<exists>k<10 * Suc m. accepted (shift 10 (peer s) k))"
      using False ex_less_add10 [of "10 * Suc m" "\<lambda>k. accepted (peer s k)"]
      by (auto simp: shift_def)
    have sh: "shift (10 * m) (shift 10 (peer s)) = shift (10 * Suc m) (peer s)"
      by (simp add: shift_def fun_eq_iff ac_simps)
    have e2: "(\<forall>k<10 * Suc (Suc m). \<not> accepted (peer s k))
               \<longleftrightarrow> (\<forall>k<10 * Suc m. \<not> accepted (shift 10 (peer s) k))"
      using e by blast
    show ?thesis
      using ih unfolding st e e2 by (simp add: f sh)
  qed
qed

lemma wake_loop_result:
  "(fst (wake_loop 0 s) \<longleftrightarrow> (\<exists>j<3. pow5v s j)) \<and> peer (snd (wake_loop 0 s)) = peer s
   \<and> resp_buff (snd (wake_loop 0 s)) = resp_buff s"
proof -
  have ex3: "(\<exists>j<3. pow5v s j) \<longleftrightarrow> pow5v s 0 \<or> pow5v s (Suc 0) \<or> pow5v s (Suc (Suc 0))"
    by (auto simp: numeral_3_eq_3 less_Suc_eq)
  show ?thesis
    unfolding ex3
    by (subst (1 2 3) wake_loop.simps, subst (1 2 3) wake_loop.simps, subst (1 2 3) wake_loop.simps)
       (auto simp: sup_defs Let_def numeral_2_eq_2)
qed

text \<open>
  The failure classification in the words of the specification: whether any response was
  ever received, and whether one with acknowledged set and power-good clear was seen, over
  all 30 polls of the three rounds.
\<close>

definition spec_start_result :: "(nat \<Rightarrow> byte list) \<Rightarrow> byte" where
  "spec_start_result p =
     (if \<exists>k<30. accepted (p k) then 0
      else if \<forall>k<30. p k = [] then RESP_ERROR
      else if \<exists>k<30. ack_no_pg (p k) then PGOOD_ERROR
      else STARTUP_ERROR)"

text \<open>
  C3 (as amended). Given that the auxiliary rail is present at one of the three checks,
  start_inverter returns 0 iff one of the up to 30 polls brings a status response of at
  least 3 bytes with bits 0 and 1 of byte 1 set. Otherwise it classifies the polls of the
  third round only (polls 20 to 29): ResponseError when none of them brought a response,
  PowerGoodError when one of them brought a response with acknowledged set and power-good
  clear, StartupError otherwise.
\<close>

theorem start_inverter_result:
  "\<exists>j<3. pow5v s j \<Longrightarrow>
   (fst (start_inverter s) = 0 \<longleftrightarrow> (\<exists>k<30. accepted (peer s k)))
   \<and> ((\<forall>k<30. \<not> accepted (peer s k)) \<longrightarrow>
        fst (start_inverter s) =
          (if \<forall>k<10. peer s (20 + k) = [] then RESP_ERROR
           else if \<exists>k<10. ack_no_pg (peer s (20 + k)) then PGOOD_ERROR
           else STARTUP_ERROR))"
proof -
  assume rail: "\<exists>j<3. pow5v s j"
  obtain ok s1 where w: "wake_loop 0 s = (ok, s1)" by (cases "wake_loop 0 s")
  then have s1: "ok" "peer s1 = peer s" using wake_loop_result [of s] rail by simp_all
  have st: "start_inverter s = start_rounds 0 s1"
    using w s1 by (simp add: start_inverter_def)
  have sh: "shift 20 (peer s) = (\<lambda>k. peer s (20 + k))"
    by (simp add: shift_def fun_eq_iff add.commute)
  show ?thesis
    using start_rounds_result [of 0 2 s1]
    by (simp add: st s1 last_round_error_def sh)
qed

text \<open>
  A peer that answers the first poll with one byte and is silent afterwards.
\<close>

definition sys_one_answer :: sys where
  "sys_one_answer = sys_init\<lparr>peer := (\<lambda>k. if k = 0 then [0x05] else [])\<rparr>"

theorem start_inverter_result_witness:
  "(\<exists>j<3. pow5v sys_one_answer j)
   \<and> \<not> (\<exists>k<30. accepted (peer sys_one_answer k))
   \<and> fst (start_inverter sys_one_answer) = RESP_ERROR"
proof -
  have r: "\<exists>j<3. pow5v sys_one_answer j"
    by (rule exI [of _ 0]) (simp add: sys_one_answer_def sys_init_def)
  have a: "\<forall>k<30. \<not> accepted (peer sys_one_answer k)"
    by (simp add: sys_one_answer_def accepted_def)
  have e: "\<forall>k<10. peer sys_one_answer (20 + k) = []"
    by (simp add: sys_one_answer_def)
  have "fst (start_inverter sys_one_answer) = RESP_ERROR"
    using start_inverter_result [OF r] a e by simp
  then show ?thesis using a r by blast
qed

theorem start_inverter_result_counterexample:
  "(\<exists>j<3. pow5v sys_one_answer j)
   \<and> fst (start_inverter sys_one_answer) = RESP_ERROR
   \<and> spec_start_result (peer sys_one_answer) = STARTUP_ERROR
   \<and> RESP_ERROR \<noteq> STARTUP_ERROR"
proof -
  have r: "\<exists>j<3. pow5v sys_one_answer j"
    by (rule exI [of _ 0]) (simp add: sys_one_answer_def sys_init_def)
  have c: "fst (start_inverter sys_one_answer) = RESP_ERROR"
    by code_simp
  have a: "\<not> (\<exists>k<30. accepted (peer sys_one_answer k))"
    by (simp add: sys_one_answer_def accepted_def)
  have n: "\<not> (\<forall>k<30. peer sys_one_answer k = [])"
    by (simp add: sys_one_answer_def)
  have p: "\<not> (\<exists>k<30. ack_no_pg (peer sys_one_answer k))"
    by (simp add: sys_one_answer_def ack_no_pg_def)
  have "spec_start_result (peer sys_one_answer) = STARTUP_ERROR"
    by (simp only: spec_start_result_def a n p if_False)
  then show ?thesis using r c by (simp add: RESP_ERROR_def STARTUP_ERROR_def)
qed

section \<open>stop_inverter\<close>

definition pulse :: "action list" where
  "pulse = [EN_OV True, Delay 100, EN_OV False]"

lemma power_cut_stop: "\<not> k < 10 \<Longrightarrow> power_cut k s = (False, s)"
  by (subst power_cut.simps) simp

lemma power_cut_step:
  "k < 10 \<Longrightarrow>
   power_cut k s =
     (let s4 = s\<lparr>trace := trace s @ pulse, pow5v := (\<lambda>j. pow5v s (Suc j))\<rparr>
      in if \<not> pow5v s 0 then (True, s4) else power_cut (k + 1) s4)"
  by (subst power_cut.simps) (simp add: sup_defs Let_def pulse_def)

text \<open>
  The rail is first found dropped at the read with index \<open>m\<close>, among the reads with
  index below \<open>n\<close>.
\<close>

definition drops_at :: "(nat \<Rightarrow> bool) \<Rightarrow> nat \<Rightarrow> nat \<Rightarrow> bool" where
  "drops_at f n m \<longleftrightarrow> m < n \<and> \<not> f m \<and> (\<forall>j<m. f j)"

lemma drops_at_first:
  "drops_at f (Suc n) m \<longleftrightarrow> (if f 0 then \<exists>m'. m = Suc m' \<and> drops_at (\<lambda>j. f (Suc j)) n m' else m = 0)"
proof (cases m)
  case 0
  then show ?thesis by (auto simp: drops_at_def)
next
  case (Suc m')
  have "(\<forall>j<Suc m'. f j) \<longleftrightarrow> f 0 \<and> (\<forall>j<m'. f (Suc j))"
    by (metis less_Suc_eq_0_disj)
  then show ?thesis using Suc by (auto simp: drops_at_def)
qed

lemma all_less_Suc_first: "(\<forall>j<Suc n. P j) \<longleftrightarrow> P 0 \<and> (\<forall>j<n. P (Suc j))"
  by (metis less_Suc_eq_0_disj)

lemma ex_less_Suc_first: "(\<exists>j<Suc n. P j) \<longleftrightarrow> P 0 \<or> (\<exists>j<n. P (Suc j))"
  by (metis less_Suc_eq_0_disj)

lemma power_cut_result:
  "10 - k = n \<Longrightarrow>
   (fst (power_cut k s) \<longleftrightarrow> (\<exists>j<n. \<not> pow5v s j))
   \<and> (\<forall>m. drops_at (pow5v s) n m \<longrightarrow>
        snd (power_cut k s) = s\<lparr>trace := trace s @ concat (replicate (Suc m) pulse),
                                 pow5v := shift (Suc m) (pow5v s)\<rparr>)
   \<and> ((\<forall>j<n. pow5v s j) \<longrightarrow>
        snd (power_cut k s) = s\<lparr>trace := trace s @ concat (replicate n pulse),
                                 pow5v := shift n (pow5v s)\<rparr>)"
proof (induction n arbitrary: k s)
  case 0
  then have "\<not> k < 10" by simp
  then show ?case by (simp add: power_cut_stop drops_at_def)
next
  case (Suc n)
  then have k: "k < 10" and n: "10 - (k + 1) = n" by simp_all
  let ?s4 = "s\<lparr>trace := trace s @ pulse, pow5v := (\<lambda>j. pow5v s (Suc j))\<rparr>"
  note st = power_cut_step [OF k, of s]
  show ?case
  proof (cases "pow5v s 0")
    case False
    then show ?thesis
      unfolding st by (auto simp: Let_def drops_at_first shift_def)
  next
    case True
    note ih = Suc.IH [OF n, of ?s4]
    have r: "concat (replicate m pulse) @ pulse = pulse @ concat (replicate m pulse)" for m
      by (induction m) simp_all
    show ?thesis
      using ih True unfolding st
      by (auto simp: Let_def drops_at_first ex_less_Suc_first all_less_Suc_first shift_Suc r)
  qed
qed

lemma final_wait_stop: "\<not> i < 10 \<Longrightarrow> final_wait i s = s"
  by (subst final_wait.simps) simp

lemma final_wait_step:
  "i < 10 \<Longrightarrow>
   final_wait i s =
     (let s2 = s\<lparr>trace := trace s @ [Delay 1000], pow5v := (\<lambda>j. pow5v s (Suc j))\<rparr>
      in if \<not> pow5v s 0 then s2 else final_wait (i + 1) s2)"
  by (subst final_wait.simps) (simp add: sup_defs Let_def)

lemma final_wait_result:
  "10 - i = n \<Longrightarrow>
   (\<forall>m. drops_at (pow5v s) n m \<longrightarrow>
        final_wait i s = s\<lparr>trace := trace s @ replicate (Suc m) (Delay 1000),
                            pow5v := shift (Suc m) (pow5v s)\<rparr>)
   \<and> ((\<forall>j<n. pow5v s j) \<longrightarrow>
        final_wait i s = s\<lparr>trace := trace s @ replicate n (Delay 1000),
                            pow5v := shift n (pow5v s)\<rparr>)"
proof (induction n arbitrary: i s)
  case 0
  then have "\<not> i < 10" by simp
  then show ?case by (simp add: final_wait_stop drops_at_def)
next
  case (Suc n)
  then have i: "i < 10" and n: "10 - (i + 1) = n" by simp_all
  let ?s2 = "s\<lparr>trace := trace s @ [Delay 1000], pow5v := (\<lambda>j. pow5v s (Suc j))\<rparr>"
  note st = final_wait_step [OF i, of s]
  show ?case
  proof (cases "pow5v s 0")
    case False
    then show ?thesis
      unfolding st by (auto simp: Let_def drops_at_first shift_def)
  next
    case True
    note ih = Suc.IH [OF n, of ?s2]
    show ?thesis
      using ih True unfolding st
      by (auto simp: Let_def drops_at_first all_less_Suc_first shift_Suc replicate_append_same)
  qed
qed

text \<open>
  A stop confirmation as stop_inverter tests it (lines 241-243): the response has at least
  3 bytes, \<open>resp_buff[3]\<close> is 0xFF after it and bit 0 of \<open>resp_buff[1]\<close> is clear.
  \<open>poll_sat Q p rb k\<close> says that the poll with index \<open>k\<close> satisfies \<open>Q\<close>, which depends
  on what the polls before it have left in \<open>resp_buff\<close>.
\<close>

definition confirmed :: "byte list \<Rightarrow> (nat \<Rightarrow> byte) \<Rightarrow> bool" where
  "confirmed r rb \<longleftrightarrow>
     3 \<le> length r \<and> snd (stored r rb) 3 = 0xFF \<and> \<not> bit (snd (stored r rb) 1) 0"

fun poll_sat :: "(byte list \<Rightarrow> (nat \<Rightarrow> byte) \<Rightarrow> bool) \<Rightarrow> (nat \<Rightarrow> byte list) \<Rightarrow> (nat \<Rightarrow> byte)
                   \<Rightarrow> nat \<Rightarrow> bool" where
  "poll_sat Q p rb 0 = Q (p 0) rb"
| "poll_sat Q p rb (Suc k) = poll_sat Q (\<lambda>i. p (Suc i)) (snd (stored (p 0) rb)) k"

definition first_sat :: "(byte list \<Rightarrow> (nat \<Rightarrow> byte) \<Rightarrow> bool) \<Rightarrow> sys \<Rightarrow> nat \<Rightarrow> bool" where
  "first_sat Q s c \<longleftrightarrow>
     poll_sat Q (peer s) (resp_buff s) c \<and> (\<forall>k<c. \<not> poll_sat Q (peer s) (resp_buff s) k)"

lemma poll_sat_poll:
  "poll_sat Q (peer (poll s)) (resp_buff (poll s)) k = poll_sat Q (peer s) (resp_buff s) (Suc k)"
  by simp

lemma poll_sat_funpow:
  "poll_sat Q (peer ((poll ^^ n) s)) (resp_buff ((poll ^^ n) s)) k
     = poll_sat Q (peer s) (resp_buff s) (n + k)"
proof (induction n arbitrary: s)
  case 0
  then show ?case by simp
next
  case (Suc n)
  have "(poll ^^ Suc n) s = (poll ^^ n) (poll s)" by (simp add: funpow_swap1)
  then show ?case using Suc [of "poll s"] by (simp del: funpow.simps)
qed

lemma first_sat_poll:
  "\<not> Q (peer s 0) (resp_buff s) \<Longrightarrow> first_sat Q s (Suc c) \<longleftrightarrow> first_sat Q (poll s) c"
  by (simp add: first_sat_def all_less_Suc_first)

lemma first_sat_0: "first_sat Q s 0 \<longleftrightarrow> Q (peer s 0) (resp_buff s)"
  by (simp add: first_sat_def)

lemma first_sat_Suc_not: "first_sat Q s (Suc c) \<Longrightarrow> \<not> Q (peer s 0) (resp_buff s)"
  by (auto simp: first_sat_def)

lemma stop_polls_stop: "\<not> j < 10 \<Longrightarrow> stop_polls j cp s = (Exhausted, s)"
  by (subst stop_polls.simps) simp

lemma stop_polls_step:
  "j < 10 \<Longrightarrow>
   stop_polls j cp s =
     (if confirmed (peer s 0) (resp_buff s)
      then (if \<not> cp then (Return, poll s)
            else (if fst (power_cut 0 (poll s)) then Return else Break,
                  snd (power_cut 0 (poll s))))
      else stop_polls (j + 1) cp (poll s))"
  by (subst stop_polls.simps)
     (auto simp: poll_def sup_defs split_def Let_def stored_count_lt3 confirmed_def
        byte_and_1 not_less)

lemma stop_polls_result:
  "10 - j = n \<Longrightarrow>
   ((\<forall>k<n. \<not> poll_sat confirmed (peer s) (resp_buff s) k) \<longrightarrow>
        stop_polls j cp s = (Exhausted, (poll ^^ n) s))
   \<and> (\<forall>c<n. first_sat confirmed s c \<longrightarrow>
        stop_polls j cp s =
          (if \<not> cp then (Return, (poll ^^ Suc c) s)
           else (if fst (power_cut 0 ((poll ^^ Suc c) s)) then Return else Break,
                 snd (power_cut 0 ((poll ^^ Suc c) s)))))"
proof (induction n arbitrary: j s)
  case 0
  then have "\<not> j < 10" by simp
  then show ?case by (simp add: stop_polls_stop)
next
  case (Suc n)
  then have j: "j < 10" and n: "10 - (j + 1) = n" by simp_all
  note st = stop_polls_step [OF j, of cp s]
  note ih = Suc.IH [OF n, of "poll s"]
  show ?case
  proof (cases "confirmed (peer s 0) (resp_buff s)")
    case True
    have "c = 0" if "first_sat confirmed s c" for c
      using that True by (cases c) (auto dest: first_sat_Suc_not)
    then show ?thesis using True unfolding st by (auto simp: all_less_Suc_first)
  next
    case False
    have a: "stop_polls j cp s = (Exhausted, (poll ^^ Suc n) s)"
      if "\<forall>k<Suc n. \<not> poll_sat confirmed (peer s) (resp_buff s) k"
      using that ih False unfolding st by (simp add: all_less_Suc_first funpow_swap1)
    have b: "stop_polls j cp s =
          (if \<not> cp then (Return, (poll ^^ Suc c) s)
           else (if fst (power_cut 0 ((poll ^^ Suc c) s)) then Return else Break,
                 snd (power_cut 0 ((poll ^^ Suc c) s))))"
      if "c < Suc n" "first_sat confirmed s c" for c
    proof (cases c)
      case 0
      then show ?thesis using that False by (simp add: first_sat_0)
    next
      case (Suc c')
      then have "first_sat confirmed (poll s) c'" "c' < n"
        using that False by (simp_all add: first_sat_poll)
      then show ?thesis using ih False unfolding st Suc by (simp add: funpow_swap1)
    qed
    show ?thesis using a b by blast
  qed
qed

text \<open>
  \<open>adds P s s'\<close>: the trace of \<open>s'\<close> is the trace of \<open>s\<close> with actions added that all
  satisfy \<open>P\<close>. \<open>polled n s s'\<close>: from \<open>s\<close> to \<open>s'\<close> the rail has not been read, \<open>n\<close>
  polls have been made and the power-cut output has not been written.
\<close>

definition adds :: "(action \<Rightarrow> bool) \<Rightarrow> sys \<Rightarrow> sys \<Rightarrow> bool" where
  "adds P s s' \<longleftrightarrow> (\<exists>pre. trace s' = trace s @ pre \<and> (\<forall>a\<in>set pre. P a))"

definition no_cut :: "action \<Rightarrow> bool" where
  "no_cut a \<longleftrightarrow> a \<noteq> EN_OV True \<and> a \<noteq> EN_OV False"

definition polled :: "nat \<Rightarrow> sys \<Rightarrow> sys \<Rightarrow> bool" where
  "polled n s s' \<longleftrightarrow> pow5v s' = pow5v s \<and> peer s' = shift n (peer s) \<and> adds no_cut s s'"

lemma adds_refl: "adds P s s"
  by (simp add: adds_def)

lemma adds_trans: "adds P s s' \<Longrightarrow> adds P s' s'' \<Longrightarrow> adds P s s''"
  by (auto simp: adds_def)

lemma adds_trace: "trace s' = trace s @ as \<Longrightarrow> \<forall>a\<in>set as. P a \<Longrightarrow> adds P s s'"
  by (auto simp: adds_def)

lemma shift_shift: "shift m (shift n f) = shift (n + m) f"
  by (simp add: shift_def fun_eq_iff ac_simps)

lemma polled_refl: "polled 0 s s"
  by (simp add: polled_def adds_refl)

lemma polled_trans: "polled n s s' \<Longrightarrow> polled m s' s'' \<Longrightarrow> polled (n + m) s s''"
  by (auto simp: polled_def shift_shift intro: adds_trans)

lemma polled_poll: "polled 1 s (poll s)"
  by (simp add: polled_def shift_def fun_eq_iff)
     (rule adds_trace [where as = "[Delay 100, Tx 0x00, Tx 0x55, Tx (ID_word_of 0x3B)]"],
      simp_all add: no_cut_def)

lemma polled_funpow: "polled n s ((poll ^^ n) s)"
proof (induction n)
  case 0
  then show ?case by (simp add: polled_refl)
next
  case (Suc n)
  from polled_trans [OF Suc polled_poll [of "(poll ^^ n) s"]] show ?case by simp
qed

lemma polled_delay: "polled 0 s (sup_delay n s)"
  by (simp add: polled_def) (rule adds_trace [where as = "[Delay n]"], simp_all add: no_cut_def)

text \<open>The stop command of lines 235-236.\<close>

definition stop_command :: "sys \<Rightarrow> sys" where
  "stop_command s =
     sup_send_data (drop 1 power_on_data) 2 (fst (sup_send_request 0x3A s))
       (snd (sup_send_request 0x3A s))"

lemma stop_command_fields [simp]:
  "peer (stop_command s) = peer s" "pow5v (stop_command s) = pow5v s"
  "resp_buff (stop_command s) = resp_buff s"
  "trace (stop_command s) = trace s @ [Tx 0x00, Tx 0x55, Tx (ID_word_of 0x3A), Tx 0x00, Tx 0x00,
      Tx (ucast (fold_checksum (ucast (ID_word_of 0x3A)) AND 0xFF))]"
  by (simp_all add: stop_command_def sup_defs Let_def power_on_data_def)

lemma polled_stop_command: "polled 0 s (stop_command s)"
  by (simp add: polled_def)
     (rule adds_trace [where as = "[Tx 0x00, Tx 0x55, Tx (ID_word_of 0x3A), Tx 0x00, Tx 0x00,
      Tx (ucast (fold_checksum (ucast (ID_word_of 0x3A)) AND 0xFF))]"], simp_all add: no_cut_def)

lemma stop_attempts_stop: "\<not> i < 3 \<Longrightarrow> stop_attempts i cp s = (False, s)"
  by (subst stop_attempts.simps) simp

lemma stop_attempts_step:
  "i < 3 \<Longrightarrow>
   stop_attempts i cp s =
     (case fst (stop_polls 0 cp (stop_command s)) of
        Return \<Rightarrow> (True, snd (stop_polls 0 cp (stop_command s)))
      | Break \<Rightarrow> (False, sup_delay 250 (snd (stop_polls 0 cp (stop_command s))))
      | Exhausted \<Rightarrow>
          stop_attempts (i + 1) cp (sup_delay 250 (snd (stop_polls 0 cp (stop_command s)))))"
  by (subst stop_attempts.simps)
     (simp add: stop_command_def split_def Let_def stop_attempts_stop split: loop_end.splits)

text \<open>One round of stop_inverter without a confirmation.\<close>

definition stop_round :: "sys \<Rightarrow> sys" where
  "stop_round s = sup_delay 250 ((poll ^^ 10) (stop_command s))"

lemma polled_stop_round: "polled 10 s (stop_round s)"
proof -
  have "polled (0 + 10) s ((poll ^^ 10) (stop_command s))"
    by (rule polled_trans [OF polled_stop_command polled_funpow])
  then have "polled (0 + 10 + 0) s (sup_delay 250 ((poll ^^ 10) (stop_command s)))"
    by (rule polled_trans [OF _ polled_delay])
  then show ?thesis by (simp add: stop_round_def)
qed

lemma poll_sat_stop_command:
  "poll_sat Q (peer (stop_command s)) (resp_buff (stop_command s)) k
     = poll_sat Q (peer s) (resp_buff s) k"
  by simp

lemma poll_sat_stop_round:
  "poll_sat Q (peer (stop_round s)) (resp_buff (stop_round s)) k
     = poll_sat Q (peer s) (resp_buff s) (10 + k)"
  using poll_sat_funpow [of Q 10 "stop_command s" k] by (simp add: stop_round_def)

lemma first_sat_exists:
  "\<exists>k<n. poll_sat Q (peer s) (resp_buff s) k \<Longrightarrow> \<exists>c<n. first_sat Q s c"
proof -
  assume "\<exists>k<n. poll_sat Q (peer s) (resp_buff s) k"
  then obtain k where k: "k < n" "poll_sat Q (peer s) (resp_buff s) k" by blast
  define c where "c = (LEAST k. poll_sat Q (peer s) (resp_buff s) k)"
  have "poll_sat Q (peer s) (resp_buff s) c" unfolding c_def using k(2) by (rule LeastI)
  moreover have "\<forall>j<c. \<not> poll_sat Q (peer s) (resp_buff s) j"
    unfolding c_def using not_less_Least by blast
  moreover have "c \<le> k" unfolding c_def using k(2) by (rule Least_le)
  ultimately have "c < n \<and> first_sat Q s c" using k(1) by (simp add: first_sat_def)
  then show ?thesis by blast
qed

lemma first_sat_after_round:
  assumes "\<forall>k<10. \<not> poll_sat Q (peer s) (resp_buff s) k" "first_sat Q s c"
  shows "10 \<le> c \<and> first_sat Q (stop_round s) (c - 10)"
proof -
  have c: "10 \<le> c" using assms by (auto simp: first_sat_def not_less [symmetric])
  then have "first_sat Q (stop_round s) (c - 10)"
    using assms(2) by (auto simp: first_sat_def poll_sat_stop_round)
  then show ?thesis using c by simp
qed

lemma stop_attempts_result:
  "3 - i = m \<Longrightarrow> i \<le> 3 \<Longrightarrow>
   ((\<forall>k<10 * m. \<not> poll_sat confirmed (peer s) (resp_buff s) k) \<longrightarrow>
      (\<exists>s'. polled (10 * m) s s' \<and> (\<forall>cp. stop_attempts i cp s = (False, s'))))
   \<and> (\<forall>c<10 * m. first_sat confirmed s c \<longrightarrow>
      (\<exists>sc. polled (Suc c) s sc \<and>
         (\<forall>cp. stop_attempts i cp s =
           (if \<not> cp then (True, sc)
            else if fst (power_cut 0 sc) then (True, snd (power_cut 0 sc))
            else (False, sup_delay 250 (snd (power_cut 0 sc)))))))"
proof (induction m arbitrary: i s)
  case 0
  then have "\<not> i < 3" by simp
  then show ?case by (simp add: stop_attempts_stop polled_refl)
next
  case (Suc m)
  then have i: "i < 3" "3 - (i + 1) = m" "i + 1 \<le> 3" by simp_all
  let ?s1 = "stop_command s"
  note st = stop_attempts_step [OF i(1), of _ s]
  note sp = stop_polls_result [of 0 10 ?s1, simplified]
  show ?case
  proof (cases "\<exists>k<10. poll_sat confirmed (peer s) (resp_buff s) k")
    case True
    then obtain c0 where c0: "c0 < 10" "first_sat confirmed s c0"
      using first_sat_exists by blast
    then have c0': "first_sat confirmed ?s1 c0" by (simp add: first_sat_def)
    have u: "c = c0" if "first_sat confirmed s c" for c
      using that c0 by (metis first_sat_def not_less_iff_gr_or_eq)
    let ?sc = "(poll ^^ Suc c0) ?s1"
    have "polled (0 + Suc c0) s ?sc"
      by (rule polled_trans [OF polled_stop_command polled_funpow])
    then have p: "polled (Suc c0) s ?sc" by simp
    have r: "stop_polls 0 cp ?s1 =
          (if \<not> cp then (Return, ?sc)
           else (if fst (power_cut 0 ?sc) then Return else Break, snd (power_cut 0 ?sc)))" for cp
      using sp [of cp] c0 c0' by blast
    have "stop_attempts i cp s =
           (if \<not> cp then (True, ?sc)
            else if fst (power_cut 0 ?sc) then (True, snd (power_cut 0 ?sc))
            else (False, sup_delay 250 (snd (power_cut 0 ?sc))))" for cp
      unfolding st r by simp
    then have b: "\<exists>sc. polled (Suc c) s sc \<and>
         (\<forall>cp. stop_attempts i cp s =
           (if \<not> cp then (True, sc)
            else if fst (power_cut 0 sc) then (True, snd (power_cut 0 sc))
            else (False, sup_delay 250 (snd (power_cut 0 sc)))))"
      if "first_sat confirmed s c" for c
      using u [OF that] p by blast
    have "\<not> (\<forall>k<10 * Suc m. \<not> poll_sat confirmed (peer s) (resp_buff s) k)"
      using True by (metis less_le_trans le_add1 mult_Suc_right)
    then show ?thesis using b by blast
  next
    case False
    then have none: "\<forall>k<10. \<not> poll_sat confirmed (peer s) (resp_buff s) k" by blast
    then have "stop_polls 0 cp ?s1 = (Exhausted, (poll ^^ 10) ?s1)" for cp using sp [of cp] by simp
    then have st': "stop_attempts i cp s = stop_attempts (i + 1) cp (stop_round s)" for cp
      unfolding st by (simp add: stop_round_def)
    note ih = Suc.IH [OF i(2,3), of "stop_round s"]
    have a: "\<exists>s'. polled (10 * Suc m) s s' \<and> (\<forall>cp. stop_attempts i cp s = (False, s'))"
      if "\<forall>k<10 * Suc m. \<not> poll_sat confirmed (peer s) (resp_buff s) k"
    proof -
      have "\<forall>k<10 * m. \<not> poll_sat confirmed (peer (stop_round s)) (resp_buff (stop_round s)) k"
        using that by (simp add: poll_sat_stop_round)
      then obtain s' where s': "\<forall>cp. stop_attempts (i + 1) cp (stop_round s) = (False, s')"
        "polled (10 * m) (stop_round s) s'" using ih by blast
      have "polled (10 + 10 * m) s s'" by (rule polled_trans [OF polled_stop_round s'(2)])
      then show ?thesis using s'(1) st' by auto
    qed
    have b: "\<exists>sc. polled (Suc c) s sc \<and>
         (\<forall>cp. stop_attempts i cp s =
           (if \<not> cp then (True, sc)
            else if fst (power_cut 0 sc) then (True, snd (power_cut 0 sc))
            else (False, sup_delay 250 (snd (power_cut 0 sc)))))"
      if "c < 10 * Suc m" "first_sat confirmed s c" for c
    proof -
      note f = first_sat_after_round [OF none that(2)]
      then have "c - 10 < 10 * m" using that(1) by auto
      then obtain sc where sc: "polled (Suc (c - 10)) (stop_round s) sc"
        "\<forall>cp. stop_attempts (i + 1) cp (stop_round s) =
           (if \<not> cp then (True, sc)
            else if fst (power_cut 0 sc) then (True, snd (power_cut 0 sc))
            else (False, sup_delay 250 (snd (power_cut 0 sc))))"
        using ih f by blast
      have "polled (Suc c) s sc"
        using polled_trans [OF polled_stop_round sc(1)] f by simp
      then show ?thesis using sc(2) st' by auto
    qed
    show ?thesis using a b by blast
  qed
qed

lemma stop_inverter_confirmed:
  assumes "pow5v s 0" "c < 30" "first_sat confirmed s c"
  shows "\<exists>sc. pow5v sc = shift 1 (pow5v s) \<and> peer sc = shift (Suc c) (peer s)
           \<and> adds no_cut s sc
           \<and> stop_inverter False s = sc
           \<and> stop_inverter True s =
               (if fst (power_cut 0 sc) then snd (power_cut 0 sc)
                else final_wait 0 (sup_delay 250 (snd (power_cut 0 sc))))"
proof -
  let ?s0 = "s\<lparr>pow5v := (\<lambda>k. pow5v s (Suc k))\<rparr>"
  have f: "first_sat confirmed ?s0 c" using assms(3) by (simp add: first_sat_def)
  have sh: "pow5v ?s0 = shift 1 (pow5v s)" by (simp add: shift_def)
  have a0: "adds no_cut s ?s0" by (simp add: adds_def)
  have "\<forall>c<10 * 3. first_sat confirmed ?s0 c \<longrightarrow>
      (\<exists>sc. polled (Suc c) ?s0 sc \<and>
         (\<forall>cp. stop_attempts 0 cp ?s0 =
           (if \<not> cp then (True, sc)
            else if fst (power_cut 0 sc) then (True, snd (power_cut 0 sc))
            else (False, sup_delay 250 (snd (power_cut 0 sc))))))"
    using stop_attempts_result [of 0 3 ?s0] by simp
  then obtain sc where sc: "polled (Suc c) ?s0 sc"
    "\<forall>cp. stop_attempts 0 cp ?s0 =
           (if \<not> cp then (True, sc)
            else if fst (power_cut 0 sc) then (True, snd (power_cut 0 sc))
            else (False, sup_delay 250 (snd (power_cut 0 sc))))"
    using f assms(2) by auto
  have "adds no_cut s sc" using adds_trans [OF a0] sc(1) by (simp add: polled_def)
  then show ?thesis
    using sc assms(1) sh
    by (intro exI [of _ sc]) (simp add: stop_inverter_def sup_defs polled_def)
qed


text \<open>
  C4 (as amended). When stop_inverter(true) finds the rail present and obtains a stop
  confirmation, it writes nothing to the power-cut output before the confirmation and
  then pulses it up to 10 times, returning as soon as the rail is found dropped after
  a pulse. If the rail has not dropped after the 10 pulses, it waits 250 ms and then
  makes the same wait as without a confirmation: up to 10 times 1 s, returning as soon
  as the rail is found dropped.
\<close>

theorem stop_inverter_power_cut:
  "pow5v s 0 \<Longrightarrow> c < 30 \<Longrightarrow> first_sat confirmed s c \<Longrightarrow>
   \<exists>pre. (\<forall>a\<in>set pre. no_cut a)
     \<and> (\<forall>m. drops_at (shift 1 (pow5v s)) 10 m \<longrightarrow>
          trace (stop_inverter True s) = trace s @ pre @ concat (replicate (Suc m) pulse))
     \<and> ((\<forall>j<10. pow5v s (Suc j)) \<longrightarrow>
          (\<forall>w. drops_at (shift 11 (pow5v s)) 10 w \<longrightarrow>
             trace (stop_inverter True s) =
               trace s @ pre @ concat (replicate 10 pulse)
                 @ Delay 250 # replicate (Suc w) (Delay 1000))
        \<and> ((\<forall>j<10. pow5v s (11 + j)) \<longrightarrow>
             trace (stop_inverter True s) =
               trace s @ pre @ concat (replicate 10 pulse)
                 @ Delay 250 # replicate 10 (Delay 1000)))"
proof -
  assume a: "pow5v s 0" "c < 30" "first_sat confirmed s c"
  from stop_inverter_confirmed [OF a] obtain sc where sc:
    "pow5v sc = shift 1 (pow5v s)" "adds no_cut s sc"
    "stop_inverter True s =
       (if fst (power_cut 0 sc) then snd (power_cut 0 sc)
        else final_wait 0 (sup_delay 250 (snd (power_cut 0 sc))))"
    by blast
  from sc(2) obtain pre where pre: "trace sc = trace s @ pre" "\<forall>a\<in>set pre. no_cut a"
    by (auto simp: adds_def)
  note pc = power_cut_result [of 0 10 sc, simplified]
  have d: "trace (stop_inverter True s) = trace s @ pre @ concat (replicate (Suc m) pulse)"
    if "drops_at (shift 1 (pow5v s)) 10 m" for m
  proof -
    have "fst (power_cut 0 sc)" using that pc sc(1) by (auto simp: drops_at_def)
    moreover have "trace (snd (power_cut 0 sc)) = trace sc @ concat (replicate (Suc m) pulse)"
      using that pc sc(1) by simp
    ultimately show ?thesis using sc(3) pre(1) by simp
  qed
  let ?t = "sup_delay 250 (snd (power_cut 0 sc))"
  have n: "stop_inverter True s = final_wait 0 ?t" "pow5v ?t = shift 11 (pow5v s)"
    "trace ?t = trace s @ pre @ concat (replicate 10 pulse) @ [Delay 250]"
    if "\<forall>j<10. pow5v s (Suc j)"
  proof -
    have al: "\<forall>j<10. pow5v sc j" using that sc(1) by (simp add: shift_def)
    then have f: "\<not> fst (power_cut 0 sc)" using pc by simp
    then show "stop_inverter True s = final_wait 0 ?t" using sc(3) by simp
    have e: "snd (power_cut 0 sc) = sc\<lparr>trace := trace sc @ concat (replicate 10 pulse),
                                       pow5v := shift 10 (pow5v sc)\<rparr>"
      using al pc by simp
    show "pow5v ?t = shift 11 (pow5v s)" unfolding e by (simp add: sc(1) shift_shift)
    show "trace ?t = trace s @ pre @ concat (replicate 10 pulse) @ [Delay 250]"
      unfolding e by (simp add: pre(1))
  qed
  note fw = final_wait_result [of 0 10 ?t, simplified]
  have w: "trace (stop_inverter True s) =
               trace s @ pre @ concat (replicate 10 pulse)
                 @ Delay 250 # replicate (Suc w) (Delay 1000)"
    if "\<forall>j<10. pow5v s (Suc j)" "drops_at (shift 11 (pow5v s)) 10 w" for w
  proof -
    have "final_wait 0 ?t = ?t\<lparr>trace := trace ?t @ replicate (Suc w) (Delay 1000),
                                pow5v := shift (Suc w) (pow5v ?t)\<rparr>"
      using fw that(2) n(2) [OF that(1)] by simp
    then show ?thesis using n(1,3) [OF that(1)] by simp
  qed
  have x: "trace (stop_inverter True s) =
               trace s @ pre @ concat (replicate 10 pulse)
                 @ Delay 250 # replicate 10 (Delay 1000)"
    if "\<forall>j<10. pow5v s (Suc j)" "\<forall>j<10. pow5v s (11 + j)"
  proof -
    have "\<forall>j<10. pow5v ?t j" using that(2) n(2) [OF that(1)] by (simp add: shift_def add.commute)
    then have "final_wait 0 ?t = ?t\<lparr>trace := trace ?t @ replicate 10 (Delay 1000),
                                pow5v := shift 10 (pow5v ?t)\<rparr>"
      using fw by simp
    then show ?thesis using n(1,3) [OF that(1)] by simp
  qed
  show ?thesis using pre(2) d w x by (intro exI [of _ pre]) blast
qed

text \<open>
  A peer that confirms the stop at once, with a rail that never drops; and the same with
  a rail that is found dropped after the third pulse.
\<close>

definition sys_stuck :: sys where
  "sys_stuck = sys_init\<lparr>peer := (\<lambda>k. [0x00, 0x00, 0x00, 0xFF])\<rparr>"

definition sys_drop :: sys where
  "sys_drop = sys_stuck\<lparr>pow5v := (\<lambda>k. k < 3)\<rparr>"

lemma sys_stuck_confirmed: "first_sat confirmed sys_stuck 0" "first_sat confirmed sys_drop 0"
  by (simp_all add: first_sat_def confirmed_def stored_def sys_stuck_def sys_drop_def sys_init_def)

theorem stop_inverter_power_cut_witness:
  "pow5v sys_stuck 0 \<and> (0::nat) < 30 \<and> first_sat confirmed sys_stuck 0
   \<and> \<not> (\<exists>j<10. \<not> pow5v sys_stuck (Suc j)) \<and> \<not> (\<exists>j<10. \<not> pow5v sys_stuck (11 + j))
   \<and> (\<exists>pre. (\<forall>a\<in>set pre. no_cut a) \<and>
         trace (stop_inverter True sys_stuck) =
           trace sys_stuck @ pre @ concat (replicate 10 pulse)
             @ Delay 250 # replicate 10 (Delay 1000))
   \<and> pow5v sys_drop 0 \<and> first_sat confirmed sys_drop 0
   \<and> drops_at (shift 1 (pow5v sys_drop)) 10 2
   \<and> (\<exists>pre. (\<forall>a\<in>set pre. no_cut a) \<and>
         trace (stop_inverter True sys_drop) =
           trace sys_drop @ pre @ concat (replicate 3 pulse))"
proof -
  have r: "pow5v sys_stuck 0" "\<forall>j<10. pow5v sys_stuck (Suc j)" "\<forall>j<10. pow5v sys_stuck (11 + j)"
    by (simp_all add: sys_stuck_def sys_init_def)
  have r': "pow5v sys_drop 0" by (simp add: sys_drop_def)
  have d: "drops_at (shift 1 (pow5v sys_drop)) 10 2"
    unfolding drops_at_def shift_def sys_drop_def by simp
  have z: "(0::nat) < 30" by simp
  from stop_inverter_power_cut [OF r(1) z sys_stuck_confirmed(1)] r(2,3)
  have 1: "\<exists>pre. (\<forall>a\<in>set pre. no_cut a) \<and>
         trace (stop_inverter True sys_stuck) =
           trace sys_stuck @ pre @ concat (replicate 10 pulse)
             @ Delay 250 # replicate 10 (Delay 1000)" by blast
  have s3: "Suc 2 = 3" by simp
  from stop_inverter_power_cut [OF r' z sys_stuck_confirmed(2)] d
  have "\<exists>pre. (\<forall>a\<in>set pre. no_cut a) \<and>
         trace (stop_inverter True sys_drop) =
           trace sys_drop @ pre @ concat (replicate (Suc 2) pulse)"
    by blast
  then have 2: "\<exists>pre. (\<forall>a\<in>set pre. no_cut a) \<and>
         trace (stop_inverter True sys_drop) =
           trace sys_drop @ pre @ concat (replicate 3 pulse)"
    by (simp only: s3)
  show ?thesis using r r' d 1 2 sys_stuck_confirmed z by blast
qed

theorem stop_inverter_power_cut_counterexample:
  "pow5v sys_stuck 0 \<and> first_sat confirmed sys_stuck 0 \<and> (\<forall>j. pow5v sys_stuck j)
   \<and> trace (stop_inverter True sys_stuck) =
        [Tx 0x00, Tx 0x55, Tx 0xBA, Tx 0x00, Tx 0x00, Tx 0x45,
         Delay 100, Tx 0x00, Tx 0x55, Tx 0xFB]
        @ concat (replicate 10 [EN_OV True, Delay 100, EN_OV False])
        @ [Delay 250] @ replicate 10 (Delay 1000)"
proof -
  have "trace (stop_inverter True sys_stuck) =
        [Tx 0x00, Tx 0x55, Tx 0xBA, Tx 0x00, Tx 0x00, Tx 0x45,
         Delay 100, Tx 0x00, Tx 0x55, Tx 0xFB]
        @ concat (replicate 10 [EN_OV True, Delay 100, EN_OV False])
        @ [Delay 250] @ replicate 10 (Delay 1000)"
    by code_simp
  then show ?thesis
    using sys_stuck_confirmed(1) by (simp add: sys_stuck_def sys_init_def)
qed

section \<open>What the supervisor inspects in a status response\<close>


definition valid_ack :: "byte list \<Rightarrow> (nat \<Rightarrow> byte) \<Rightarrow> bool" where
  "valid_ack r rb \<longleftrightarrow>
     3 \<le> length r \<and> bit (snd (stored r rb) 1) 0 \<and> snd (stored r rb) 3 = 0xFF"













text \<open>One status poll of enough_power_drawn (lines 264-266).\<close>

definition power_poll :: "sys \<Rightarrow> sys" where
  "power_poll s = snd (sup_read_response (sup_delay 20 (snd (sup_send_request 0x3B s))))"

lemma power_poll_fields [simp]:
  "peer (power_poll s) = (\<lambda>k. peer s (Suc k))"
  "resp_buff (power_poll s) = snd (stored (peer s 0) (resp_buff s))"
  by (simp_all add: power_poll_def sup_defs split_def Let_def)

lemma power_polls_stop: "\<not> i < 10 \<Longrightarrow> power_polls i ps s = (False, s)"
  by (subst power_polls.simps) simp

lemma power_polls_step:
  "i < 10 \<Longrightarrow>
   power_polls i ps s =
     (if \<not> valid_ack (peer s 0) (resp_buff s) then power_polls (i + 1) ps (power_poll s)
      else if ps + (if resp_buff (power_poll s) 0 > 0 then 1 else 0) \<ge> 5
      then (True, power_poll s)
      else power_polls (i + 1) (ps + (if resp_buff (power_poll s) 0 > 0 then 1 else 0))
             (power_poll s))"
  by (subst power_polls.simps)
     (auto simp: power_poll_def sup_defs split_def Let_def stored_count_lt3 valid_ack_def
        byte_and_1 not_less)














section \<open>The control loop: low battery\<close>

definition is_shutdown :: "outcome \<Rightarrow> bool" where
  "is_shutdown x = (case x of Shutdown c s \<Rightarrow> True | Running c s \<Rightarrow> False)"

text \<open>
  \<open>pg_fails k c s\<close>: the loop started with \<open>c\<close> and \<open>s\<close> reaches its iteration number
  \<open>k\<close> (counted from 0), and is_power_good returns false in it. \<open>streak n c s\<close>: how many
  iterations in a row, immediately before iteration \<open>n\<close>, had is_power_good return false.
\<close>

definition pg_fails :: "nat \<Rightarrow> ctrl \<Rightarrow> sys \<Rightarrow> bool" where
  "pg_fails k c s =
     (case main_loop k c s of
        Running c1 s1 \<Rightarrow> \<not> fst (is_power_good s1)
      | Shutdown c1 s1 \<Rightarrow> False)"

fun streak :: "nat \<Rightarrow> ctrl \<Rightarrow> sys \<Rightarrow> nat" where
  "streak 0 c s = 0"
| "streak (Suc k) c s = (if pg_fails k c s then Suc (streak k c s) else 0)"

lemma main_iteration_low:
  "\<not> fst (is_power_good s) \<Longrightarrow>
   main_iteration c s =
     (let s4 = show_error LOW_BATT_ERR (sup_delay 250 (stop_inverter True (snd (is_power_good s))));
          c1 = c\<lparr>low_batt_counter := low_batt_counter c + 1\<rparr>
      in if low_batt_counter c + 1 \<ge> 5 then Shutdown c1 (emit [Enter_PD] s4)
         else Running c1 (wait_if_plugged 30 s4))"
  by (simp add: main_iteration_def split_def Let_def)

lemma no_load_check_low_batt [simp]:
  "low_batt_counter (fst (no_load_check c s)) = low_batt_counter c"
  by (simp add: no_load_check_def Let_def split_def)

lemma main_iteration_good:
  "fst (is_power_good s) \<Longrightarrow>
   \<exists>c1 s1. main_iteration c s = Running c1 s1 \<and> low_batt_counter c1 = 0"
  by (simp add: main_iteration_def split_def Let_def)

lemma main_loop_Suc_end:
  "main_loop (Suc n) c s =
     (case main_loop n c s of
        Shutdown c1 s1 \<Rightarrow> Shutdown c1 s1
      | Running c1 s1 \<Rightarrow> main_iteration c1 s1)"
proof (induction n arbitrary: c s)
  case 0
  then show ?case by (simp split: outcome.splits)
next
  case (Suc n)
  show ?case
  proof (cases "main_iteration c s")
    case (Running c1 s1)
    then show ?thesis using Suc [of c1 s1] by simp
  next
    case (Shutdown c1 s1)
    then show ?thesis by simp
  qed
qed

lemma main_loop_shutdown_stays:
  "is_shutdown (main_loop n c s) \<Longrightarrow> main_loop (n + k) c s = main_loop n c s"
proof (induction k)
  case 0
  then show ?case by simp
next
  case (Suc k)
  then show ?case
    using main_loop_Suc_end [of "n + k" c s]
    by (simp add: is_shutdown_def split: outcome.splits)
qed

lemma byte_counter_step:
  "unat (x::byte) \<le> 4 \<Longrightarrow> unat (x + 1) = Suc (unat x) \<and> (x + 1 \<ge> 5 \<longleftrightarrow> unat x = 4)"
proof -
  assume a: "unat x \<le> 4"
  then have "unat (x + 1) = Suc (unat x)" by (simp add: unat_word_ariths)
  then show ?thesis using a by (auto simp: word_le_nat_alt)
qed

lemma low_batt_invariant:
  "low_batt_counter c = 0 \<Longrightarrow> main_loop n c s = Running c1 s1 \<Longrightarrow>
   unat (low_batt_counter c1) = streak n c s \<and> streak n c s \<le> 4"
proof (induction n arbitrary: c1 s1)
  case 0
  then show ?case by simp
next
  case (Suc n)
  from Suc.prems(2) obtain c0 s0 where r: "main_loop n c s = Running c0 s0"
    and it: "main_iteration c0 s0 = Running c1 s1"
    using main_loop_Suc_end [of n c s] by (auto split: outcome.splits)
  note ih = Suc.IH [OF Suc.prems(1) r]
  show ?case
  proof (cases "fst (is_power_good s0)")
    case True
    then have "low_batt_counter c1 = 0" using main_iteration_good [of s0 c0] it by auto
    then show ?thesis using True r by (simp add: pg_fails_def)
  next
    case False
    note b = byte_counter_step [of "low_batt_counter c0"]
    from False it have "unat (low_batt_counter c1) = Suc (streak n c s) \<and> streak n c s \<noteq> 4"
      using ih b by (auto simp: main_iteration_low Let_def split: if_splits)
    then show ?thesis using False r ih by (simp add: pg_fails_def)
  qed
qed

text \<open>
  C7. Started with \<open>low_batt_counter = 0\<close>, the control loop keeps in \<open>low_batt_counter\<close>
  the number of iterations in a row in which is_power_good has returned false, never more
  than 4 on entry to an iteration. It enters power-down, for good, in an iteration iff
  is_power_good returns false in it and in the four iterations before it, that is on the
  fifth such iteration in a row and on no other. An iteration in which is_power_good
  returns true leaves \<open>low_batt_counter = 0\<close>.
\<close>

theorem low_batt_shutdown:
  "low_batt_counter c = 0 \<Longrightarrow> main_loop n c s = Running c1 s1 \<Longrightarrow>
   unat (low_batt_counter c1) = streak n c s \<and> streak n c s \<le> 4
   \<and> (is_shutdown (main_loop (Suc n) c s) \<longleftrightarrow> \<not> fst (is_power_good s1) \<and> streak n c s = 4)
   \<and> (is_shutdown (main_loop (Suc n) c s) \<longrightarrow>
        (\<forall>k. main_loop (Suc n + k) c s = main_loop (Suc n) c s))
   \<and> (fst (is_power_good s1) \<longrightarrow>
        (\<exists>c2 s2. main_loop (Suc n) c s = Running c2 s2 \<and> low_batt_counter c2 = 0))
   \<and> (\<not> fst (is_power_good s1) \<and> streak n c s < 4 \<longrightarrow>
        (\<exists>c2 s2. main_loop (Suc n) c s = Running c2 s2
           \<and> unat (low_batt_counter c2) = Suc (streak n c s)))"
proof -
  assume a: "low_batt_counter c = 0" "main_loop n c s = Running c1 s1"
  note inv = low_batt_invariant [OF a]
  have nx: "main_loop (Suc n) c s = main_iteration c1 s1"
    using main_loop_Suc_end [of n c s] a(2) by simp
  note b = byte_counter_step [of "low_batt_counter c1"]
  have g: "\<exists>c2 s2. main_loop (Suc n) c s = Running c2 s2 \<and> low_batt_counter c2 = 0"
    if "fst (is_power_good s1)"
    unfolding nx using main_iteration_good [OF that, of c1] by simp
  have l: "is_shutdown (main_loop (Suc n) c s) \<longleftrightarrow> streak n c s = 4"
    "streak n c s < 4 \<longrightarrow> (\<exists>c2 s2. main_loop (Suc n) c s = Running c2 s2
           \<and> unat (low_batt_counter c2) = Suc (streak n c s))"
    if "\<not> fst (is_power_good s1)"
    unfolding nx using that inv b by (auto simp: main_iteration_low Let_def is_shutdown_def)
  have "\<not> is_shutdown (main_loop (Suc n) c s)" if "fst (is_power_good s1)"
    using g [OF that] by (auto simp: is_shutdown_def)
  then show ?thesis
    using inv g l main_loop_shutdown_stays [of "Suc n" c s] by blast
qed

text \<open>A flat battery, nothing plugged in, the rail absent.\<close>

definition sys_flat :: sys where
  "sys_flat = sys_init\<lparr>pow5v := (\<lambda>k. False), pgood := (\<lambda>k. False), plug := (\<lambda>k. False)\<rparr>"

lemma main_loop_numeral:
  "main_loop (numeral k) c s =
     (case main_iteration c s of
        Shutdown c1 s1 \<Rightarrow> Shutdown c1 s1
      | Running c1 s1 \<Rightarrow> main_loop (pred_numeral k) c1 s1)"
  by (simp add: numeral_eq_Suc)

lemmas flat_run = is_shutdown_def main_iteration_def is_power_good_def pg_loop.simps
  stop_inverter_def show_error_def blink_loop.simps wait_if_plugged_def wait_loop.simps
  anything_plugged_def sup_defs sys_flat_def sys_init_def Let_def ctrl_init_def LOW_BATT_ERR_def
  word_le_nat_alt main_loop_numeral

theorem low_batt_shutdown_witness:
  "low_batt_counter (ctrl_init False) = 0
   \<and> (\<exists>c1 s1. main_loop 4 (ctrl_init False) sys_flat = Running c1 s1
         \<and> unat (low_batt_counter c1) = 4 \<and> streak 4 (ctrl_init False) sys_flat = 4
         \<and> \<not> fst (is_power_good s1))
   \<and> \<not> is_shutdown (main_loop 4 (ctrl_init False) sys_flat)
   \<and> is_shutdown (main_loop 5 (ctrl_init False) sys_flat)
   \<and> main_loop (5 + 7) (ctrl_init False) sys_flat = main_loop 5 (ctrl_init False) sys_flat
   \<and> fst (is_power_good sys_init)
   \<and> (\<exists>c2 s2. main_loop 1 (ctrl_init False) sys_init = Running c2 s2 \<and> low_batt_counter c2 = 0)
   \<and> \<not> fst (is_power_good sys_flat) \<and> streak 0 (ctrl_init False) sys_flat < 4
   \<and> (\<exists>c2 s2. main_loop 1 (ctrl_init False) sys_flat = Running c2 s2
         \<and> unat (low_batt_counter c2) = 1)"
proof -
  have z: "low_batt_counter (ctrl_init False) = 0" by (simp add: ctrl_init_def)
  have r4: "\<not> is_shutdown (main_loop 4 (ctrl_init False) sys_flat)"
    by (simp add: flat_run)
  have r5: "is_shutdown (main_loop 5 (ctrl_init False) sys_flat)"
    by (simp add: flat_run)
  have g: "fst (is_power_good sys_init)" by (simp add: flat_run)
  have f: "\<not> fst (is_power_good sys_flat)" by (simp add: flat_run)
  from r4 obtain c1 s1 where m4: "main_loop 4 (ctrl_init False) sys_flat = Running c1 s1"
    by (cases "main_loop 4 (ctrl_init False) sys_flat") (simp_all add: is_shutdown_def)
  have s45: "Suc 4 = 5" by simp
  note t4 = low_batt_shutdown [OF z m4, unfolded s45]
  have m0: "main_loop 0 (ctrl_init False) s = Running (ctrl_init False) s" for s by simp
  have s01: "Suc 0 = 1" by simp
  note t0 = low_batt_shutdown [OF z m0 [of sys_init], unfolded s01]
  note u0 = low_batt_shutdown [OF z m0 [of sys_flat], unfolded s01]
  have a: "unat (low_batt_counter c1) = 4 \<and> streak 4 (ctrl_init False) sys_flat = 4
         \<and> \<not> fst (is_power_good s1)"
    using t4 r5 by auto
  have b: "main_loop (5 + 7) (ctrl_init False) sys_flat = main_loop 5 (ctrl_init False) sys_flat"
    using t4 r5 by blast
  have c: "\<exists>c2 s2. main_loop 1 (ctrl_init False) sys_init = Running c2 s2 \<and> low_batt_counter c2 = 0"
    using t0 g by blast
  have s0: "streak 0 (ctrl_init False) sys_flat < 4" by simp
  have d: "\<exists>c2 s2. main_loop 1 (ctrl_init False) sys_flat = Running c2 s2
         \<and> unat (low_batt_counter c2) = 1"
    using u0 f s0 by auto
  show ?thesis using z m4 a r4 r5 b g c f s0 d by blast
qed

section \<open>The control loop: no-load checks\<close>

text \<open>
  \<open>serial a\<close>: the action is a delay or a byte handed to UART_send. \<open>waits t s s'\<close>: from
  \<open>s\<close> to \<open>s'\<close> only delays have been added to the trace, of at most \<open>t\<close> ms in total.
  \<open>advanced s s'\<close>: the inputs of \<open>s'\<close> are those of \<open>s\<close> after some reads.
  \<open>quietly s s'\<close>: from \<open>s\<close> to \<open>s'\<close> inputs have been read and only serial actions
  added. \<open>wakeups s\<close>: how many times the trace of \<open>s\<close> pulls the TX pin low, which only
  LIN_wakeup does (line 135).
\<close>

definition serial :: "action \<Rightarrow> bool" where
  "serial a = (case a of Delay n \<Rightarrow> True | Tx b \<Rightarrow> True | _ \<Rightarrow> False)"

definition waits :: "nat \<Rightarrow> sys \<Rightarrow> sys \<Rightarrow> bool" where
  "waits t s s' \<longleftrightarrow> (\<exists>ds. trace s' = trace s @ map Delay ds \<and> sum_list ds \<le> t)"

definition advanced :: "sys \<Rightarrow> sys \<Rightarrow> bool" where
  "advanced s s' \<longleftrightarrow>
     (\<exists>a b c d. pow5v s' = shift a (pow5v s) \<and> pgood s' = shift b (pgood s)
        \<and> plug s' = shift c (plug s) \<and> peer s' = shift d (peer s))"

definition quietly :: "sys \<Rightarrow> sys \<Rightarrow> bool" where
  "quietly s s' \<longleftrightarrow> adds serial s s' \<and> advanced s s'"

definition wakeups :: "sys \<Rightarrow> nat" where
  "wakeups s = count_list (trace s) (TX_pin False)"

definition sys_of :: "outcome \<Rightarrow> sys" where
  "sys_of x = (case x of Running c s \<Rightarrow> s | Shutdown c s \<Rightarrow> s)"

definition ctrl_of :: "outcome \<Rightarrow> ctrl" where
  "ctrl_of x = (case x of Running c s \<Rightarrow> c | Shutdown c s \<Rightarrow> c)"

text \<open>
  The spec's schedule for the repeated wakeup: on every 20th check of a run of no-load
  checks, \<open>n\<close> being the number of the check in the run, counted from 1.
\<close>

definition spec_wakeup_due :: "nat \<Rightarrow> bool" where
  "spec_wakeup_due n \<longleftrightarrow> n mod 20 = 0"

lemma serial_simps [simp]:
  "serial (Delay n)" "serial (Tx b)" "\<not> serial (TX_pin x)" "\<not> serial (EN_OV x)"
  "\<not> serial (LED_OV x)" "\<not> serial (UART_int x)" "\<not> serial Enter_idle" "\<not> serial Enter_PD"
  by (simp_all add: serial_def)

lemma adds_serial_wakeups: "adds serial s s' \<Longrightarrow> wakeups s' = wakeups s"
proof -
  have "count_list pre (TX_pin False) = 0" if "\<forall>a\<in>set pre. serial a" for pre
    using that by (induction pre) auto
  then show "adds serial s s' \<Longrightarrow> wakeups s' = wakeups s"
    by (auto simp: adds_def wakeups_def)
qed

lemma waits_serial: "waits t s s' \<Longrightarrow> adds serial s s'"
  by (auto simp: waits_def adds_def)

lemma advancedI:
  "pow5v s' = shift a (pow5v s) \<Longrightarrow> pgood s' = shift b (pgood s) \<Longrightarrow>
   plug s' = shift c (plug s) \<Longrightarrow> peer s' = shift d (peer s) \<Longrightarrow> advanced s s'"
  unfolding advanced_def by blast

lemma advanced_refl: "advanced s s"
  by (rule advancedI [where a = 0 and b = 0 and c = 0 and d = 0]) simp_all

lemma advanced_trans: "advanced s s' \<Longrightarrow> advanced s' s'' \<Longrightarrow> advanced s s''"
proof -
  assume "advanced s s'" "advanced s' s''"
  then obtain a b c d a' b' c' d' where
    "pow5v s' = shift a (pow5v s)" "pgood s' = shift b (pgood s)"
    "plug s' = shift c (plug s)" "peer s' = shift d (peer s)"
    "pow5v s'' = shift a' (pow5v s')" "pgood s'' = shift b' (pgood s')"
    "plug s'' = shift c' (plug s')" "peer s'' = shift d' (peer s')"
    unfolding advanced_def by blast
  then show ?thesis
    by (intro advancedI [where a = "a + a'" and b = "b + b'" and c = "c + c'" and d = "d + d'"])
       (simp_all add: shift_shift)
qed

lemma quietly_refl: "quietly s s"
  by (simp add: quietly_def adds_refl advanced_refl)

lemma quietly_trans: "quietly s s' \<Longrightarrow> quietly s' s'' \<Longrightarrow> quietly s s''"
  by (auto simp: quietly_def intro: adds_trans advanced_trans)

lemma quietly_poll: "quietly s (poll s)"
  unfolding quietly_def
proof
  show "adds serial s (poll s)"
    by (rule adds_trace [where as = "[Delay 100, Tx 0x00, Tx 0x55, Tx (ID_word_of 0x3B)]"])
       simp_all
  show "advanced s (poll s)"
    by (rule advancedI [where a = 0 and b = 0 and c = 0 and d = 1]) (simp_all add: shift_def)
qed

lemma quietly_delay: "quietly s (sup_delay n s)"
  unfolding quietly_def
proof
  show "adds serial s (sup_delay n s)"
    by (rule adds_trace [where as = "[Delay n]"]) (simp_all add: sup_defs)
  show "advanced s (sup_delay n s)"
    by (rule advancedI [where a = 0 and b = 0 and c = 0 and d = 0]) (simp_all add: sup_defs)
qed

lemma quietly_stop_command: "quietly s (stop_command s)"
  unfolding quietly_def
proof
  show "adds serial s (stop_command s)"
    by (rule adds_trace [where as = "[Tx 0x00, Tx 0x55, Tx (ID_word_of 0x3A), Tx 0x00, Tx 0x00,
      Tx (ucast (fold_checksum (ucast (ID_word_of 0x3A)) AND 0xFF))]"]) simp_all
  show "advanced s (stop_command s)"
    by (rule advancedI [where a = 0 and b = 0 and c = 0 and d = 0]) (simp_all add: stop_command_def sup_defs Let_def)
qed

lemma quietly_read_POW_5V: "quietly s (snd (read_POW_5V s))"
  unfolding quietly_def
proof
  show "adds serial s (snd (read_POW_5V s))"
    by (rule adds_trace [where as = "[]"]) (simp_all add: sup_defs)
  show "advanced s (snd (read_POW_5V s))"
    by (rule advancedI [where a = 1 and b = 0 and c = 0 and d = 0]) (simp_all add: sup_defs shift_def)
qed

lemma stop_polls_soft: "10 - j = n \<Longrightarrow> quietly s (snd (stop_polls j False s))"
proof (induction n arbitrary: j s)
  case 0
  then show ?case by (simp add: stop_polls_stop quietly_refl)
next
  case (Suc n)
  then have j: "j < 10" and n: "10 - (j + 1) = n" by simp_all
  show ?case
    using quietly_poll [of s] quietly_trans [OF quietly_poll [of s] Suc.IH [OF n, of "poll s"]]
    by (simp add: stop_polls_step [OF j])
qed

lemma stop_attempts_soft: "3 - i = n \<Longrightarrow> quietly s (snd (stop_attempts i False s))"
proof (induction n arbitrary: i s)
  case 0
  then show ?case by (simp add: stop_attempts_stop quietly_refl)
next
  case (Suc n)
  then have i: "i < 3" and n: "3 - (i + 1) = n" by simp_all
  let ?p = "snd (stop_polls 0 False (stop_command s))"
  have p: "quietly s ?p"
    by (rule quietly_trans [OF quietly_stop_command stop_polls_soft [OF refl]])
  have d: "quietly s (sup_delay 250 ?p)"
    by (rule quietly_trans [OF p quietly_delay])
  have r: "quietly s (snd (stop_attempts (i + 1) False (sup_delay 250 ?p)))"
    by (rule quietly_trans [OF d Suc.IH [OF n]])
  show ?case
    using p d r by (simp add: stop_attempts_step [OF i] split: loop_end.splits)
qed

lemma final_wait_quietly: "10 - i = n \<Longrightarrow> quietly s (final_wait i s)"
proof (induction n arbitrary: i s)
  case 0
  then show ?case by (simp add: final_wait_stop quietly_refl)
next
  case (Suc n)
  then have i: "i < 10" and n: "10 - (i + 1) = n" by simp_all
  let ?s = "s\<lparr>trace := trace s @ [Delay 1000], pow5v := (\<lambda>j. pow5v s (Suc j))\<rparr>"
  have "adds serial s ?s"
    by (rule adds_trace [where as = "[Delay 1000]"]) simp_all
  moreover have "advanced s ?s"
    by (rule advancedI [where a = 1 and b = 0 and c = 0 and d = 0]) (simp_all add: shift_def)
  ultimately have a: "quietly s ?s" by (simp add: quietly_def)
  show ?case
    using a quietly_trans [OF a Suc.IH [OF n, of ?s]]
    by (simp add: final_wait_step [OF i] Let_def)
qed

lemma stop_inverter_soft: "quietly s (stop_inverter False s)"
proof -
  let ?s = "snd (read_POW_5V s)"
  have a: "quietly s ?s" by (rule quietly_read_POW_5V)
  have b: "quietly s (snd (stop_attempts 0 False ?s))"
    by (rule quietly_trans [OF a stop_attempts_soft [OF refl]])
  have c: "quietly s (final_wait 0 (snd (stop_attempts 0 False ?s)))"
    by (rule quietly_trans [OF b final_wait_quietly [OF refl]])
  show ?thesis
    using a b c by (simp add: stop_inverter_def split_def Let_def split: bool.splits)
qed

text \<open>wait_if_plugged: at most 100 ms for each unit of its argument.\<close>

lemma waits_refl: "waits 0 s s"
  by (simp add: waits_def)

lemma waits_trans: "waits t s s' \<Longrightarrow> waits u s' s'' \<Longrightarrow> waits (t + u) s s''"
proof -
  assume "waits t s s'" "waits u s' s''"
  then obtain ds es where "trace s' = trace s @ map Delay ds" "sum_list ds \<le> t"
    "trace s'' = trace s' @ map Delay es" "sum_list es \<le> u"
    by (auto simp: waits_def)
  then have "trace s'' = trace s @ map Delay (ds @ es) \<and> sum_list (ds @ es) \<le> t + u" by simp
  then show ?thesis unfolding waits_def by blast
qed

lemma waits_mono: "waits t s s' \<Longrightarrow> t \<le> u \<Longrightarrow> waits u s s'"
  by (auto simp: waits_def)

lemma waits_anything_plugged: "waits 20 s (snd (anything_plugged s))"
proof -
  have "trace (snd (anything_plugged s)) = trace s @ map Delay (if plug s 0 then [20] else [])"
    by (simp add: anything_plugged_def sup_defs Let_def split_def)
  then show ?thesis unfolding waits_def by (intro exI [of _ "if plug s 0 then [20] else []"]) simp
qed

lemma waits_delay: "waits n s (sup_delay n s)"
  unfolding waits_def by (intro exI [of _ "[n]"]) (simp add: sup_defs)

lemma wait_loop_stop: "\<not> i < m \<Longrightarrow> wait_loop m i s = s"
  by (subst wait_loop.simps) simp

lemma wait_loop_step:
  "i < m \<Longrightarrow>
   wait_loop m i s =
     (if fst (anything_plugged s)
      then wait_loop m (i + 1) (sup_delay 80 (snd (anything_plugged s)))
      else snd (anything_plugged s))"
  by (subst wait_loop.simps) (simp add: split_def)

lemma wait_loop_waits: "unat m - unat i = n \<Longrightarrow> waits (100 * n) s (wait_loop m i s)"
proof (induction n arbitrary: i s)
  case 0
  then have "\<not> i < m" by (simp add: word_less_nat_alt)
  then show ?case by (simp add: wait_loop_stop waits_refl)
next
  case (Suc n)
  then have i: "i < m" by (simp add: word_less_nat_alt)
  then have "unat (i + 1) = unat i + 1" by (simp add: unat_byte_succ)
  then have n: "unat m - unat (i + 1) = n" using Suc.prems by simp
  let ?a = "snd (anything_plugged s)"
  have a: "waits 20 s ?a" by (rule waits_anything_plugged)
  have d: "waits (20 + 80) s (sup_delay 80 ?a)" by (rule waits_trans [OF a waits_delay])
  have r: "waits (20 + 80 + 100 * n) s (wait_loop m (i + 1) (sup_delay 80 ?a))"
    by (rule waits_trans [OF d Suc.IH [OF n]])
  show ?case
    using waits_mono [OF a, of "100 * Suc n"] r by (simp add: wait_loop_step [OF i])
qed

lemma advanced_anything_plugged: "advanced s (snd (anything_plugged s))"
proof (cases "plug s 0")
  case True
  then show ?thesis
    by (intro advancedI [where a = 0 and b = 0 and c = 2 and d = 0])
       (simp_all add: anything_plugged_def sup_defs Let_def split_def shift_def)
next
  case False
  then show ?thesis
    by (intro advancedI [where a = 0 and b = 0 and c = 1 and d = 0])
       (simp_all add: anything_plugged_def sup_defs Let_def split_def shift_def)
qed

lemma wait_loop_advanced: "unat m - unat i = n \<Longrightarrow> advanced s (wait_loop m i s)"
proof (induction n arbitrary: i s)
  case 0
  then have "\<not> i < m" by (simp add: word_less_nat_alt)
  then show ?case by (simp add: wait_loop_stop advanced_refl)
next
  case (Suc n)
  then have i: "i < m" by (simp add: word_less_nat_alt)
  then have "unat (i + 1) = unat i + 1" by (simp add: unat_byte_succ)
  then have n: "unat m - unat (i + 1) = n" using Suc.prems by simp
  let ?a = "snd (anything_plugged s)"
  have a: "advanced s ?a" by (rule advanced_anything_plugged)
  have "advanced ?a (sup_delay 80 ?a)" using quietly_delay [of ?a 80] by (simp add: quietly_def)
  then have d: "advanced s (sup_delay 80 ?a)" by (rule advanced_trans [OF a])
  show ?case
    using a advanced_trans [OF d Suc.IH [OF n]] by (simp add: wait_loop_step [OF i])
qed

lemma wait_if_plugged_quietly: "quietly s (wait_if_plugged m s)"
  unfolding quietly_def
proof
  show "advanced s (wait_if_plugged m s)"
    using wait_loop_advanced [of m 0 "unat m" s] by (simp add: wait_if_plugged_def)
  show "adds serial s (wait_if_plugged m s)"
    using wait_loop_waits [of m 0 "unat m" s] waits_serial by (simp add: wait_if_plugged_def)
qed

lemma wait_if_plugged_waits: "waits (100 * unat m) s (wait_if_plugged m s)"
  using wait_loop_waits [of m 0 "unat m" s] by (simp add: wait_if_plugged_def)

lemma wakeups_LIN_wakeup: "wakeups (LIN_wakeup s) = Suc (wakeups s)"
  by (simp add: wakeups_def sup_defs)

lemma quietly_wakeups: "quietly s s' \<Longrightarrow> wakeups s' = wakeups s"
  by (simp add: quietly_def adds_serial_wakeups)

lemma no_load_check_below:
  "no_load_counter c < 60 \<Longrightarrow>
   no_load_check c s =
     (c\<lparr>no_load_counter := no_load_counter c + 1, prev_was_load := False\<rparr>,
      if 20 \<le> unat (no_load_counter c) + 1
      then wait_if_plugged 30 (LIN_wakeup (wait_if_plugged 18 (stop_inverter False s)))
      else wait_if_plugged 18 (stop_inverter False s))"
proof -
  assume a: "no_load_counter c < 60"
  then have u: "unat (no_load_counter c + 1) = unat (no_load_counter c) + 1"
    by (simp add: unat_byte_succ)
  have "20 \<le> no_load_counter c + 1 \<longleftrightarrow> 20 \<le> unat (no_load_counter c) + 1"
    by (simp add: word_le_nat_alt u)
  then show ?thesis using a by (simp add: no_load_check_def Let_def not_le [symmetric])
qed

lemma main_iteration_no_load:
  "is_power_good s = (True, s1) \<Longrightarrow> anything_plugged s1 = (True, s2) \<Longrightarrow>
   start_inverter s2 = (0, s3) \<Longrightarrow> drawn_power_detect c \<Longrightarrow>
   enough_power_drawn (if prev_was_load c then s3 else sup_delay 200 s3) = (False, s5) \<Longrightarrow>
   main_iteration c s =
     Running (fst (no_load_check (c\<lparr>low_batt_counter := 0\<rparr>) s5))
             (snd (no_load_check (c\<lparr>low_batt_counter := 0\<rparr>) s5))"
  by (cases "prev_was_load c") (simp_all add: main_iteration_def Let_def split_def)

lemma main_iteration_no_load_wakeups:
  assumes "is_power_good s = (True, s1)" "anything_plugged s1 = (True, s2)"
    "start_inverter s2 = (0, s3)" "drawn_power_detect c"
    "enough_power_drawn (if prev_was_load c then s3 else sup_delay 200 s3) = (False, s5)"
    "no_load_counter c < 60"
  shows "main_iteration c s =
           Running (c\<lparr>no_load_counter := no_load_counter c + 1, prev_was_load := False,
                      low_batt_counter := 0\<rparr>)
             (if 20 \<le> unat (no_load_counter c) + 1
              then wait_if_plugged 30 (LIN_wakeup (wait_if_plugged 18 (stop_inverter False s5)))
              else wait_if_plugged 18 (stop_inverter False s5))"
    and "wakeups (sys_of (main_iteration c s))
           = wakeups s5 + (if 20 \<le> unat (no_load_counter c) + 1 then 1 else 0)"
proof -
  show m: "main_iteration c s =
           Running (c\<lparr>no_load_counter := no_load_counter c + 1, prev_was_load := False,
                      low_batt_counter := 0\<rparr>)
             (if 20 \<le> unat (no_load_counter c) + 1
              then wait_if_plugged 30 (LIN_wakeup (wait_if_plugged 18 (stop_inverter False s5)))
              else wait_if_plugged 18 (stop_inverter False s5))"
    using main_iteration_no_load [OF assms(1-5)]
      no_load_check_below [of "c\<lparr>low_batt_counter := 0\<rparr>" s5] assms(6)
    by simp
  have "wakeups (stop_inverter False s5) = wakeups s5"
    by (rule quietly_wakeups [OF stop_inverter_soft])
  then show "wakeups (sys_of (main_iteration c s))
           = wakeups s5 + (if 20 \<le> unat (no_load_counter c) + 1 then 1 else 0)"
    unfolding m
    by (simp add: sys_of_def quietly_wakeups [OF wait_if_plugged_quietly] wakeups_LIN_wakeup)
qed

text \<open>
  C5. In drawn-power-detect mode, an iteration of the control loop that finds no load
  (is_power_good and anything_plugged return true, start_inverter returns 0,
  enough_power_drawn returns false) with \<open>no_load_counter\<close> below 60 soft-stops with
  \<open>stop_inverter(false)\<close>, which only sends on the link and waits and never writes the
  power-cut output; adds 1 to \<open>no_load_counter\<close>; waits with \<open>wait_if_plugged(18)\<close>, at
  most 1.8 s of delays; and, iff the counter after the increment is at least 20, calls
  LIN_wakeup once and waits again with \<open>wait_if_plugged(30)\<close>, at most 3 s more. So the
  wakeup is issued on every such check from the 20th of a run on, and agrees with the
  schedule "on every 20th check" only up to the 20th check and on the 40th and the 60th.
\<close>

theorem no_load_wakeup:
  "is_power_good s = (True, s1) \<Longrightarrow> anything_plugged s1 = (True, s2) \<Longrightarrow>
   start_inverter s2 = (0, s3) \<Longrightarrow> drawn_power_detect c \<Longrightarrow>
   enough_power_drawn (if prev_was_load c then s3 else sup_delay 200 s3) = (False, s5) \<Longrightarrow>
   no_load_counter c < 60 \<Longrightarrow>
   (let n = unat (no_load_counter c) + 1;
        s6 = stop_inverter False s5;
        s7 = wait_if_plugged 18 s6;
        s8 = wait_if_plugged 30 (LIN_wakeup s7)
    in main_iteration c s =
         Running (c\<lparr>no_load_counter := no_load_counter c + 1, prev_was_load := False,
                    low_batt_counter := 0\<rparr>)
                 (if 20 \<le> n then s8 else s7)
       \<and> unat (no_load_counter c + 1) = n
       \<and> adds serial s5 s6 \<and> waits 1800 s6 s7 \<and> waits 3000 (LIN_wakeup s7) s8
       \<and> wakeups (sys_of (main_iteration c s)) = wakeups s5 + (if 20 \<le> n then 1 else 0)
       \<and> ((20 \<le> n) = spec_wakeup_due n \<longleftrightarrow> n \<le> 20 \<or> n = 40 \<or> n = 60))"
proof -
  assume a: "is_power_good s = (True, s1)" "anything_plugged s1 = (True, s2)"
    "start_inverter s2 = (0, s3)" "drawn_power_detect c"
    "enough_power_drawn (if prev_was_load c then s3 else sup_delay 200 s3) = (False, s5)"
    "no_load_counter c < 60"
  define n where "n = unat (no_load_counter c) + 1"
  have u: "unat (no_load_counter c + 1) = n"
    using a(6) by (simp add: n_def unat_byte_succ)
  have n: "n \<le> 60" using a(6) by (simp add: n_def word_less_nat_alt)
  have w1: "waits 1800 s6 (wait_if_plugged 18 s6)" for s6
    using wait_if_plugged_waits [of 18 s6] by simp
  have w2: "waits 3000 s7 (wait_if_plugged 30 s7)" for s7
    using wait_if_plugged_waits [of 30 s7] by simp
  have sp: "(20 \<le> n) = spec_wakeup_due n \<longleftrightarrow> n \<le> 20 \<or> n = 40 \<or> n = 60"
  proof -
    have "n > 0" by (simp add: n_def)
    then show ?thesis using n unfolding spec_wakeup_due_def by presburger
  qed
  show ?thesis
    unfolding Let_def n_def [symmetric]
    using main_iteration_no_load_wakeups [OF a] u stop_inverter_soft [of s5] w1 w2 sp
    by (simp add: n_def quietly_def)
qed

text \<open>
  An inverter that runs with nothing drawing power: the battery is good, something is
  plugged in, the rail is present, and the peer answers every poll with four bytes, power
  0, operating and power-good set, and the marker. \<open>idle s\<close>: the inputs of \<open>s\<close> are
  these. \<open>ctrl_at n\<close>: the variables of main in drawn-power-detect mode with
  \<open>no_load_counter = n\<close>.
\<close>

definition idle_sys :: "(nat \<Rightarrow> byte) \<Rightarrow> action list \<Rightarrow> sys" where
  "idle_sys rb t = \<lparr> resp_buff = rb, pow5v = (\<lambda>k. True), pgood = (\<lambda>k. True),
     plug = (\<lambda>k. True), peer = (\<lambda>k. [0x00, 0x03, 0x00, 0xFF]), trace = t \<rparr>"

definition idle :: "sys \<Rightarrow> bool" where
  "idle s \<longleftrightarrow> pow5v s = (\<lambda>k. True) \<and> pgood s = (\<lambda>k. True) \<and> plug s = (\<lambda>k. True)
     \<and> peer s = (\<lambda>k. [0x00, 0x03, 0x00, 0xFF])"

definition sys_idle :: sys where
  "sys_idle = idle_sys (\<lambda>i. 0) []"

definition ctrl_at :: "byte \<Rightarrow> ctrl" where
  "ctrl_at n = (ctrl_init True)\<lparr>no_load_counter := n\<rparr>"

lemma idle_sys_fields [simp]:
  "resp_buff (idle_sys rb t) = rb" "pow5v (idle_sys rb t) = (\<lambda>k. True)"
  "pgood (idle_sys rb t) = (\<lambda>k. True)" "plug (idle_sys rb t) = (\<lambda>k. True)"
  "peer (idle_sys rb t) = (\<lambda>k. [0x00, 0x03, 0x00, 0xFF])" "trace (idle_sys rb t) = t"
  by (simp_all add: idle_sys_def)

lemma idle_idle_sys [simp]: "idle (idle_sys rb t)"
  by (simp add: idle_def)

lemma idle_eq: "idle s \<Longrightarrow> s = idle_sys (resp_buff s) (trace s)"
  by (cases s) (simp add: idle_def idle_sys_def)

lemma idle_advanced: "idle s \<Longrightarrow> advanced s s' \<Longrightarrow> idle s'"
  by (auto simp: idle_def advanced_def shift_def)

lemma wakeups_idle_sys [simp]: "wakeups (idle_sys rb t) = count_list t (TX_pin False)"
  by (simp add: wakeups_def)

lemma sup_delay_idle: "sup_delay n (idle_sys rb t) = idle_sys rb (t @ [Delay n])"
  by (simp add: sup_defs idle_sys_def)

lemma is_power_good_idle:
  "is_power_good (idle_sys rb t) =
     (True, idle_sys rb (t @ [Delay 10, Delay 10, Delay 10, Delay 10, Delay 10, Delay 10,
        Delay 10, Delay 10, Delay 10, Delay 10]))"
  by (simp add: is_power_good_def pg_loop.simps sup_defs idle_sys_def Let_def)

lemma anything_plugged_idle:
  "anything_plugged (idle_sys rb t) = (True, idle_sys rb (t @ [Delay 20]))"
  by (simp add: anything_plugged_def sup_defs idle_sys_def Let_def)

lemma start_inverter_idle:
  "\<exists>rb' t'. start_inverter (idle_sys rb t) = (0, idle_sys rb' (t @ t'))
      \<and> count_list t' (TX_pin False) = 0"
proof -
  let ?r = "start_inverter (idle_sys rb t)"
  let ?t = "[Tx 0x00, Tx 0x55, Tx (ID_word_of 0x3A), Tx 0x02, Tx 0x00,
             Tx (ucast (fold_checksum (ucast (ID_word_of 0x3A) + 2) AND 0xFF)),
             Delay 100, Tx 0x00, Tx 0x55, Tx (ID_word_of 0x3B)]"
  note run = start_inverter_def wake_loop.simps start_rounds.simps start_polls.simps
    sup_defs idle_sys_def Let_def power_on_data_def stored_def
  have 1: "fst ?r = 0" by (simp add: run)
  have 2: "idle (snd ?r)" by (simp add: run idle_def)
  have 3: "trace (snd ?r) = t @ ?t" by (simp add: run)
  have "?r = (0, idle_sys (resp_buff (snd ?r)) (t @ ?t))"
    using 1 idle_eq [OF 2] 3 by (simp add: prod_eq_iff)
  moreover have "count_list ?t (TX_pin False) = 0" by simp
  ultimately show ?thesis by blast
qed

lemma power_poll_idle:
  "power_poll (idle_sys rb t) =
     idle_sys (snd (stored [0x00, 0x03, 0x00, 0xFF] rb))
       (t @ [Tx 0x00, Tx 0x55, Tx (ID_word_of 0x3B), Delay 20])"
  by (simp add: power_poll_def sup_defs idle_sys_def Let_def split_def)

lemma power_polls_idle:
  "10 - i = n \<Longrightarrow>
   \<exists>rb' t'. power_polls i 0 (idle_sys rb t) = (False, idle_sys rb' (t @ t'))
      \<and> count_list t' (TX_pin False) = 0"
proof (induction n arbitrary: i rb t)
  case 0
  then have "\<not> i < 10" by simp
  then have "power_polls i 0 (idle_sys rb t) = (False, idle_sys rb (t @ []))"
    by (simp add: power_polls_stop)
  then show ?case by (intro exI [of _ rb] exI [of _ "[]"]) simp
next
  case (Suc n)
  then have i: "i < 10" and n: "10 - (i + 1) = n" by simp_all
  let ?rb = "snd (stored [0x00, 0x03, 0x00, 0xFF] rb)"
  let ?t = "[Tx 0x00, Tx 0x55, Tx (ID_word_of 0x3B), Delay 20]"
  from Suc.IH [OF n, of ?rb "t @ ?t"] obtain rb' t' where
    r: "power_polls (i + 1) 0 (idle_sys ?rb (t @ ?t)) = (False, idle_sys rb' ((t @ ?t) @ t'))"
       "count_list t' (TX_pin False) = 0" by blast
  have z: "?rb 0 = 0" by (simp add: stored_def)
  have "power_polls i 0 (idle_sys rb t) = (False, idle_sys rb' (t @ (?t @ t')))"
    using r(1) z by (simp add: power_polls_step [OF i] power_poll_idle)
  moreover have "count_list (?t @ t') (TX_pin False) = 0" using r(2) by simp
  ultimately show ?case by blast
qed

text \<open>On such an inverter every iteration of the control loop is a no-load check.\<close>

lemma idle_check:
  "\<exists>s1 s2 s3 s5. is_power_good (idle_sys rb t) = (True, s1) \<and> anything_plugged s1 = (True, s2)
      \<and> start_inverter s2 = (0, s3)
      \<and> enough_power_drawn (if p then s3 else sup_delay 200 s3) = (False, s5)
      \<and> idle s5 \<and> wakeups s5 = count_list t (TX_pin False)"
proof -
  let ?t1 = "t @ [Delay 10, Delay 10, Delay 10, Delay 10, Delay 10, Delay 10,
        Delay 10, Delay 10, Delay 10, Delay 10]"
  let ?t2 = "?t1 @ [Delay 20]"
  from start_inverter_idle [of rb ?t2] obtain rb3 t3 where
    3: "start_inverter (idle_sys rb ?t2) = (0, idle_sys rb3 (?t2 @ t3))"
       "count_list t3 (TX_pin False) = 0" by blast
  let ?t4 = "if p then ?t2 @ t3 else (?t2 @ t3) @ [Delay 200]"
  have 4: "(if p then idle_sys rb3 (?t2 @ t3) else sup_delay 200 (idle_sys rb3 (?t2 @ t3)))
             = idle_sys rb3 ?t4"
    by (simp add: sup_delay_idle)
  from power_polls_idle [OF refl, of 0 rb3 ?t4] obtain rb5 t5 where
    5: "enough_power_drawn (idle_sys rb3 ?t4) = (False, idle_sys rb5 (?t4 @ t5))"
       "count_list t5 (TX_pin False) = 0"
    by (auto simp: enough_power_drawn_def)
  have w: "wakeups (idle_sys rb5 (?t4 @ t5)) = count_list t (TX_pin False)"
    using 3(2) 5(2) by simp
  show ?thesis
    apply (rule exI [of _ "idle_sys rb ?t1"])
    apply (rule exI [of _ "idle_sys rb ?t2"])
    apply (rule exI [of _ "idle_sys rb3 (?t2 @ t3)"])
    apply (rule exI [of _ "idle_sys rb5 (?t4 @ t5)"])
    using is_power_good_idle [of rb t] anything_plugged_idle [of rb ?t1] 3(1) 5(1) w
    unfolding 4 by simp
qed

lemma advanced_LIN_wakeup: "advanced s (LIN_wakeup s)"
  by (rule advancedI [where a = 0 and b = 0 and c = 0 and d = 0]) (simp_all add: sup_defs)

lemma idle_iteration:
  assumes "idle s" "drawn_power_detect c" "no_load_counter c < 60"
  shows "\<exists>s'. main_iteration c s =
           Running (c\<lparr>no_load_counter := no_load_counter c + 1, prev_was_load := False,
                      low_batt_counter := 0\<rparr>) s'
         \<and> idle s'
         \<and> wakeups s' = wakeups s + (if 20 \<le> unat (no_load_counter c) + 1 then 1 else 0)"
proof -
  have s: "s = idle_sys (resp_buff s) (trace s)" by (rule idle_eq [OF assms(1)])
  from idle_check [of "resp_buff s" "trace s" "prev_was_load c"] obtain s1 s2 s3 s5 where
    h: "is_power_good s = (True, s1)" "anything_plugged s1 = (True, s2)"
       "start_inverter s2 = (0, s3)"
       "enough_power_drawn (if prev_was_load c then s3 else sup_delay 200 s3) = (False, s5)"
    and i: "idle s5" and w: "wakeups s5 = wakeups s"
    unfolding s [symmetric] wakeups_def by blast
  let ?s7 = "wait_if_plugged 18 (stop_inverter False s5)"
  let ?s' = "if 20 \<le> unat (no_load_counter c) + 1
             then wait_if_plugged 30 (LIN_wakeup ?s7) else ?s7"
  note m = main_iteration_no_load_wakeups [OF h(1-3) assms(2) h(4) assms(3)]
  have "quietly s5 ?s7" by (rule quietly_trans [OF stop_inverter_soft wait_if_plugged_quietly])
  then have a7: "advanced s5 ?s7" by (simp add: quietly_def)
  have "advanced ?s7 (wait_if_plugged 30 (LIN_wakeup ?s7))"
    using advanced_trans [OF advanced_LIN_wakeup] wait_if_plugged_quietly [of "LIN_wakeup ?s7" 30]
    by (simp add: quietly_def)
  then have "advanced s5 ?s'" using a7 advanced_trans [OF a7] by simp
  then have "idle ?s'" by (rule idle_advanced [OF i])
  moreover have "wakeups ?s' = wakeups s + (if 20 \<le> unat (no_load_counter c) + 1 then 1 else 0)"
    using m(2) w unfolding m(1) by (simp add: sys_of_def)
  ultimately show ?thesis using m(1) by blast
qed

lemma idle_loop:
  assumes "idle s" "drawn_power_detect c" "no_load_counter c = 0"
  shows "n \<le> 60 \<Longrightarrow>
         \<exists>c' s'. main_loop n c s = Running c' s' \<and> idle s' \<and> drawn_power_detect c'
            \<and> unat (no_load_counter c') = n \<and> wakeups s' = wakeups s + (n - 19)"
proof (induction n)
  case 0
  then show ?case using assms by simp
next
  case (Suc n)
  then obtain c' s' where
    r: "main_loop n c s = Running c' s'" "idle s'" "drawn_power_detect c'"
       "unat (no_load_counter c') = n" "wakeups s' = wakeups s + (n - 19)"
    by auto
  have l: "no_load_counter c' < 60" using r(4) Suc.prems by (simp add: word_less_nat_alt)
  from idle_iteration [OF r(2,3) l] obtain s'' where
    i: "main_iteration c' s' =
          Running (c'\<lparr>no_load_counter := no_load_counter c' + 1, prev_was_load := False,
                      low_batt_counter := 0\<rparr>) s''"
       "idle s''"
       "wakeups s'' = wakeups s' + (if 20 \<le> unat (no_load_counter c') + 1 then 1 else 0)"
    by blast
  have u: "unat (no_load_counter c' + 1) = Suc n" using l r(4) by (simp add: unat_byte_succ)
  have w: "wakeups s'' = wakeups s + (Suc n - 19)" using i(3) r(4,5) by auto
  have m: "main_loop (Suc n) c s =
             Running (c'\<lparr>no_load_counter := no_load_counter c' + 1, prev_was_load := False,
                      low_batt_counter := 0\<rparr>) s''"
    by (simp only: main_loop_Suc_end r(1) outcome.case i(1))
  show ?case unfolding m using i(2) r(3) u w by simp
qed

theorem no_load_wakeup_witness:
  "(\<exists>s1 s2 s3 s5 s'. is_power_good sys_idle = (True, s1) \<and> anything_plugged s1 = (True, s2)
       \<and> start_inverter s2 = (0, s3) \<and> drawn_power_detect (ctrl_at 0)
       \<and> enough_power_drawn (if prev_was_load (ctrl_at 0) then s3 else sup_delay 200 s3)
            = (False, s5)
       \<and> no_load_counter (ctrl_at 0) < 60 \<and> wakeups s5 = 0
       \<and> main_iteration (ctrl_at 0) sys_idle = Running (ctrl_at 1) s' \<and> wakeups s' = 0)
   \<and> (\<exists>s1 s2 s3 s5 s'. is_power_good sys_idle = (True, s1) \<and> anything_plugged s1 = (True, s2)
       \<and> start_inverter s2 = (0, s3) \<and> drawn_power_detect (ctrl_at 19)
       \<and> enough_power_drawn (if prev_was_load (ctrl_at 19) then s3 else sup_delay 200 s3)
            = (False, s5)
       \<and> no_load_counter (ctrl_at 19) < 60 \<and> wakeups s5 = 0
       \<and> main_iteration (ctrl_at 19) sys_idle = Running (ctrl_at 20) s' \<and> wakeups s' = 1)
   \<and> spec_wakeup_due 20"
proof -
  have p: "prev_was_load (ctrl_at n) = False" "drawn_power_detect (ctrl_at n)" for n
    by (simp_all add: ctrl_at_def ctrl_init_def)
  from idle_check [of "\<lambda>i. 0" "[]" False] obtain s1 s2 s3 s5 where
    h: "is_power_good sys_idle = (True, s1)" "anything_plugged s1 = (True, s2)"
       "start_inverter s2 = (0, s3)"
       "enough_power_drawn (if prev_was_load (ctrl_at n) then s3 else sup_delay 200 s3)
          = (False, s5)"
    and w: "wakeups s5 = 0" for n
    unfolding sys_idle_def [symmetric] p by auto
  have l: "no_load_counter (ctrl_at 0) < 60" "no_load_counter (ctrl_at 19) < 60"
    by (simp_all add: ctrl_at_def)
  have c: "(ctrl_at 0)\<lparr>no_load_counter := no_load_counter (ctrl_at 0) + 1, prev_was_load := False,
              low_batt_counter := 0\<rparr> = ctrl_at 1"
    "(ctrl_at 19)\<lparr>no_load_counter := no_load_counter (ctrl_at 19) + 1, prev_was_load := False,
              low_batt_counter := 0\<rparr> = ctrl_at 20"
    by (simp_all add: ctrl_at_def ctrl_init_def)
  have u: "unat (no_load_counter (ctrl_at 0)) = 0" "unat (no_load_counter (ctrl_at 19)) = 19"
    by (simp_all add: ctrl_at_def)
  have a: "main_iteration (ctrl_at 0) sys_idle
             = Running (ctrl_at 1) (wait_if_plugged 18 (stop_inverter False s5))
           \<and> wakeups (sys_of (main_iteration (ctrl_at 0) sys_idle)) = 0"
    using no_load_wakeup [OF h(1-3) p(2) h(4) l(1)] w unfolding Let_def c u by auto
  have b: "main_iteration (ctrl_at 19) sys_idle
             = Running (ctrl_at 20)
                 (wait_if_plugged 30 (LIN_wakeup (wait_if_plugged 18 (stop_inverter False s5))))
           \<and> wakeups (sys_of (main_iteration (ctrl_at 19) sys_idle)) = 1"
    using no_load_wakeup [OF h(1-3) p(2) h(4) l(2)] w unfolding Let_def c u by auto
  have a': "wakeups (wait_if_plugged 18 (stop_inverter False s5)) = 0"
    using a by (auto simp: sys_of_def)
  have b': "wakeups (wait_if_plugged 30 (LIN_wakeup (wait_if_plugged 18 (stop_inverter False s5))))
              = 1"
    using b by (auto simp: sys_of_def)
  have d: "spec_wakeup_due 20" by (simp add: spec_wakeup_due_def)
  show ?thesis using h p(2) l w a a' b b' d by blast
qed

theorem no_load_wakeup_counterexample:
  "\<exists>c20 s20 c21 s21. wakeups sys_idle = 0
      \<and> main_loop 20 (ctrl_init True) sys_idle = Running c20 s20
      \<and> no_load_counter c20 = 20 \<and> wakeups s20 = 1
      \<and> main_iteration c20 s20 = Running c21 s21
      \<and> main_loop 21 (ctrl_init True) sys_idle = Running c21 s21
      \<and> no_load_counter c21 = 21 \<and> wakeups s21 = 2
      \<and> \<not> spec_wakeup_due 21"
proof -
  have i: "idle sys_idle" "drawn_power_detect (ctrl_init True)"
    "no_load_counter (ctrl_init True) = 0" "wakeups sys_idle = 0"
    by (simp_all add: sys_idle_def ctrl_init_def)
  from idle_loop [OF i(1-3), of 20] obtain c20 s20 where
    r: "main_loop 20 (ctrl_init True) sys_idle = Running c20 s20" "idle s20"
       "drawn_power_detect c20" "unat (no_load_counter c20) = 20" "wakeups s20 = 1"
    using i(4) by auto
  have n: "no_load_counter c20 = 20" using r(4) by (simp add: word_unat_eq_iff)
  have l: "no_load_counter c20 < 60" by (simp add: n)
  from idle_iteration [OF r(2,3) l] obtain s21 where
    m: "main_iteration c20 s20 =
          Running (c20\<lparr>no_load_counter := 21, prev_was_load := False, low_batt_counter := 0\<rparr>)
            s21"
       "wakeups s21 = 2"
    using r(5) by (auto simp: n)
  have "Suc 20 = (21::nat)" by simp
  then have "main_loop 21 (ctrl_init True) sys_idle = main_iteration c20 s20"
    using main_loop_Suc_end [of 20 "ctrl_init True" sys_idle] r(1) by simp
  moreover have "\<not> spec_wakeup_due 21" by (simp add: spec_wakeup_due_def)
  ultimately show ?thesis using i(4) r(1,5) n m by simp
qed

end
